theory Spec2Isabelle
  imports Main "HOL-Library.Word"
begin

unbundle bit_operations_syntax

section \<open>Text and bytes\<close>

text \<open>
  A JavaScript string is a sequence of UTF-16 code units; a \<open>Uint8Array\<close> is a sequence
  of bytes. String literals of the source are written \<open>js ''...''\<close>.
\<close>

type_synonym jschar = "16 word"
type_synonym jsstring = "jschar list"
type_synonym byte = "8 word"
type_synonym bytes = "byte list"

definition js :: "string \<Rightarrow> jsstring" where
  "js s = map of_char s"

text \<open>
  The ECMAScript classes WhiteSpace and LineTerminator: what \<open>String.prototype.trim\<close>
  removes and what \<open>\s\<close> matches in a regular expression.
\<close>

definition isWhiteSpace :: "jschar \<Rightarrow> bool" where
  "isWhiteSpace c \<longleftrightarrow>
     c = 0x09 \<or> c = 0x0A \<or> c = 0x0B \<or> c = 0x0C \<or> c = 0x0D \<or> c = 0x20 \<or> c = 0xA0 \<or>
     c = 0x1680 \<or> (0x2000 \<le> c \<and> c \<le> 0x200A) \<or> c = 0x2028 \<or> c = 0x2029 \<or>
     c = 0x202F \<or> c = 0x205F \<or> c = 0x3000 \<or> c = 0xFEFF"

definition trim :: "jsstring \<Rightarrow> jsstring" where
  "trim s = rev (dropWhile isWhiteSpace (rev (dropWhile isWhiteSpace s)))"

definition startsWith :: "jsstring \<Rightarrow> jsstring \<Rightarrow> bool" where
  "startsWith s p \<longleftrightarrow> take (length p) s = p"

definition endsWith :: "jsstring \<Rightarrow> jsstring \<Rightarrow> bool" where
  "endsWith s p \<longleftrightarrow> length p \<le> length s \<and> drop (length s - length p) s = p"

text \<open>\<open>s.includes(p)\<close>: \<open>p\<close> occurs in \<open>s\<close> at some position.\<close>

fun str_includes :: "jsstring \<Rightarrow> jsstring \<Rightarrow> bool" where
  "str_includes [] p = (p = [])"
| "str_includes (c # cs) p = (startsWith (c # cs) p \<or> str_includes cs p)"

text \<open>\<open>s.substring(a, b)\<close> for \<open>a \<le> b\<close>; both indices are clamped to the length.\<close>

definition substring :: "jsstring \<Rightarrow> nat \<Rightarrow> nat \<Rightarrow> jsstring" where
  "substring s a b = take (b - a) (drop a s)"

definition isHexDigit :: "jschar \<Rightarrow> bool" where
  "isHexDigit c \<longleftrightarrow>
     (0x30 \<le> c \<and> c \<le> 0x39) \<or> (0x61 \<le> c \<and> c \<le> 0x66) \<or> (0x41 \<le> c \<and> c \<le> 0x46)"

definition isBase64Char :: "jschar \<Rightarrow> bool" where
  "isBase64Char c \<longleftrightarrow>
     (0x41 \<le> c \<and> c \<le> 0x5A) \<or> (0x61 \<le> c \<and> c \<le> 0x7A) \<or> (0x30 \<le> c \<and> c \<le> 0x39) \<or>
     c = 0x2B \<or> c = 0x2F \<or> c = 0x3D"

text \<open>\<open>hexRe = /^[0-9a-fA-F]+$/\<close> and \<open>base64Re = /^[A-Za-z0-9+/=]+$/\<close>.\<close>

definition hexRe_test :: "jsstring \<Rightarrow> bool" where
  "hexRe_test s \<longleftrightarrow> s \<noteq> [] \<and> list_all isHexDigit s"

definition base64Re_test :: "jsstring \<Rightarrow> bool" where
  "base64Re_test s \<longleftrightarrow> s \<noteq> [] \<and> list_all isBase64Char s"

text \<open>\<open>/^[0-9a-fA-F]{2}$/\<close>, the test of \<open>parsePythonBytes\<close> on the two characters after \<open>\x\<close>.\<close>

definition hex2Re_test :: "jsstring \<Rightarrow> bool" where
  "hex2Re_test s \<longleftrightarrow> length s = 2 \<and> list_all isHexDigit s"

definition hexDigitValue :: "jschar \<Rightarrow> nat" where
  "hexDigitValue c =
     (if 0x30 \<le> c \<and> c \<le> 0x39 then unat c - 0x30
      else if 0x61 \<le> c \<and> c \<le> 0x66 then unat c - 0x57
      else unat c - 0x37)"

text \<open>
  \<open>parseInt(s, 16)\<close> on the digits at the front of \<open>s\<close>. Both callers pass two
  characters that the regular expression has already accepted as hexadecimal digits, so
  the sign, the blanks, the \<open>0x\<close> prefix and the NaN of \<open>parseInt\<close> do not arise.
\<close>

definition parseInt16 :: "jsstring \<Rightarrow> nat" where
  "parseInt16 s = foldl (\<lambda>a c. 16 * a + hexDigitValue c) 0 (takeWhile isHexDigit s)"

section \<open>Errors\<close>

text \<open>
  \<open>Error msg\<close> is \<open>new Error(msg)\<close> of the source. \<open>RangeError\<close> is what a
  \<open>DataView\<close> getter throws when the read does not fit in the view; its message is worded
  by the JavaScript engine, not by this program.
\<close>

datatype error = Error string | RangeError

section \<open>Byte recovery: hexadecimal\<close>

text \<open>\<open>str.replace(/^0x/, '')\<close> and \<open>.replace(/\s+/g, '')\<close>.\<close>

definition replace_0x :: "jsstring \<Rightarrow> jsstring" where
  "replace_0x s = (if startsWith s (js ''0x'') then drop 2 s else s)"

definition remove_ws :: "jsstring \<Rightarrow> jsstring" where
  "remove_ws s = filter (\<lambda>c. \<not> isWhiteSpace c) s"

definition hexClean :: "jsstring \<Rightarrow> jsstring" where
  "hexClean str = remove_ws (replace_0x str)"

text \<open>
  The loop \<open>for (let i = 0; i < clean.length; i += 2) bytes[i / 2] = parseInt(...)\<close>
  over the zero-filled \<open>Uint8Array\<close>; storing into the array keeps the low 8 bits.
\<close>

function hex_loop :: "jsstring \<Rightarrow> nat \<Rightarrow> bytes \<Rightarrow> bytes" where
  "hex_loop clean i bs =
     (if i < length clean
      then hex_loop clean (i + 2) (bs[i div 2 := of_nat (parseInt16 (substring clean i (i + 2)))])
      else bs)"
  by pat_completeness auto
termination
  by (relation "measure (\<lambda>(clean, i, bs). length clean - i)") auto

declare hex_loop.simps [simp del]

definition parseHex :: "jsstring \<Rightarrow> error + bytes" where
  "parseHex str =
     (let clean = hexClean str in
      if length clean mod 2 \<noteq> 0 then Inl (Error ''Invalid Hex string length'')
      else if \<not> hexRe_test clean then Inl (Error ''Invalid Hex characters'')
      else Inr (hex_loop clean 0 (replicate (length clean div 2) 0)))"

section \<open>Byte recovery: escaped byte-string literal\<close>

text \<open>
  The two opening markers \<open>b'\<close> and \<open>b"\<close>, the closing quotes, and \<open>\x\<close>, as code
  units.
\<close>

definition b_squote :: jsstring where "b_squote = [0x62, 0x27]"
definition b_dquote :: jsstring where "b_dquote = [0x62, 0x22]"
definition squote :: jsstring where "squote = [0x27]"
definition dquote :: jsstring where "dquote = [0x22]"
definition backslash_x :: jsstring where "backslash_x = [0x5C, 0x78]"

text \<open>\<open>content.slice(2, -1)\<close> and \<open>content.slice(2)\<close>.\<close>

definition slice_2_m1 :: "jsstring \<Rightarrow> jsstring" where
  "slice_2_m1 s = take (length s - 1 - 2) (drop 2 s)"

definition slice_2 :: "jsstring \<Rightarrow> jsstring" where
  "slice_2 s = drop 2 s"

definition strip_wrapper :: "jsstring \<Rightarrow> jsstring" where
  "strip_wrapper content =
     (if (startsWith content b_squote \<and> endsWith content squote) \<or>
         (startsWith content b_dquote \<and> endsWith content dquote)
      then slice_2_m1 content
      else if startsWith content b_squote \<or> startsWith content b_dquote
      then slice_2 content
      else content)"

text \<open>The \<open>switch (next)\<close> of the standard escapes; the numbers are what is pushed.\<close>

definition escape_code :: "jschar \<Rightarrow> nat" where
  "escape_code next =
     (if next = 0x6E then 10
      else if next = 0x72 then 13
      else if next = 0x74 then 9
      else if next = 0x5C then 92
      else if next = 0x22 then 34
      else if next = 0x27 then 39
      else if next = 0x30 then 0
      else unat next)"

text \<open>
  The \<open>while (i < content.length)\<close> loop. \<open>bs\<close> is the \<open>number[]\<close> the source pushes
  to; the \<open>break\<close> after a trailing backslash is the branch that returns at once.
\<close>

function py_loop :: "jsstring \<Rightarrow> nat \<Rightarrow> nat list \<Rightarrow> nat list" where
  "py_loop content i bs =
     (if i < length content then
        (let char = content ! i in
         if char = 0x5C then
           (if i + 1 \<ge> length content then bs @ [92]
            else
              (let next = content ! (i + 1) in
               if next = 0x78 then
                 (if i + 3 < length content \<and> hex2Re_test (substring content (i + 2) (i + 4))
                  then py_loop content (i + 4)
                         (bs @ [parseInt16 (substring content (i + 2) (i + 4))])
                  else py_loop content (i + 2) (bs @ [92, 120]))
               else py_loop content (i + 2) (bs @ [escape_code next])))
         else py_loop content (i + 1) (bs @ [unat char]))
      else bs)"
  by pat_completeness auto
termination
  by (relation "measure (\<lambda>(content, i, bs). length content - i)") auto

declare py_loop.simps [simp del]

text \<open>\<open>new Uint8Array(bytes)\<close> keeps the low 8 bits of every number.\<close>

definition parsePythonBytes :: "jsstring \<Rightarrow> bytes" where
  "parsePythonBytes str = map of_nat (py_loop (strip_wrapper (trim str)) 0 [])"

section \<open>Byte recovery: base64\<close>

text \<open>
  \<open>atob\<close> is the platform's forgiving-base64 decode: ASCII white space is removed, up
  to two trailing \<open>=\<close> are dropped when the length is a multiple of 4, a length of
  1 modulo 4 or a character outside the alphabet fails (\<open>None\<close>: the
  InvalidCharacterError), and the 6-bit groups are regrouped to bytes, the spare bits
  of a final partial group discarded.
\<close>

definition isAsciiWhitespace :: "jschar \<Rightarrow> bool" where
  "isAsciiWhitespace c \<longleftrightarrow> c = 0x09 \<or> c = 0x0A \<or> c = 0x0C \<or> c = 0x0D \<or> c = 0x20"

definition isBase64Alphabet :: "jschar \<Rightarrow> bool" where
  "isBase64Alphabet c \<longleftrightarrow>
     (0x41 \<le> c \<and> c \<le> 0x5A) \<or> (0x61 \<le> c \<and> c \<le> 0x7A) \<or> (0x30 \<le> c \<and> c \<le> 0x39) \<or>
     c = 0x2B \<or> c = 0x2F"

definition b64_index :: "jschar \<Rightarrow> nat" where
  "b64_index c =
     (if 0x41 \<le> c \<and> c \<le> 0x5A then unat c - 0x41
      else if 0x61 \<le> c \<and> c \<le> 0x7A then unat c - 0x61 + 26
      else if 0x30 \<le> c \<and> c \<le> 0x39 then unat c - 0x30 + 52
      else if c = 0x2B then 62
      else 63)"

definition strip_padding :: "jsstring \<Rightarrow> jsstring" where
  "strip_padding d =
     (if length d mod 4 = 0 then
        (if endsWith d [0x3D, 0x3D] then take (length d - 2) d
         else if endsWith d [0x3D] then take (length d - 1) d
         else d)
      else d)"

fun b64_groups :: "nat list \<Rightarrow> nat list" where
  "b64_groups (a # b # c # d # rest) =
     (a * 4 + b div 16) # ((b mod 16) * 16 + c div 4) # ((c mod 4) * 64 + d) # b64_groups rest"
| "b64_groups [a, b, c] = [a * 4 + b div 16, (b mod 16) * 16 + c div 4]"
| "b64_groups [a, b] = [a * 4 + b div 16]"
| "b64_groups _ = []"

definition atob :: "jsstring \<Rightarrow> jsstring option" where
  "atob data =
     (let d = strip_padding (filter (\<lambda>c. \<not> isAsciiWhitespace c) data) in
      if length d mod 4 = 1 then None
      else if \<not> list_all isBase64Alphabet d then None
      else Some (map of_nat (b64_groups (map b64_index d))))"

text \<open>
  \<open>parseBase64\<close>: whatever \<open>atob\<close> throws is caught and replaced by the source's own
  error; the loop copies \<open>charCodeAt(i)\<close> into the \<open>Uint8Array\<close>.
\<close>

definition parseBase64 :: "jsstring \<Rightarrow> error + bytes" where
  "parseBase64 str =
     (case atob str of
        None \<Rightarrow> Inl (Error ''Invalid Base64 string'')
      | Some binaryString \<Rightarrow> Inr (map ucast binaryString))"

section \<open>Format auto-detection\<close>

datatype InputFormat = AUTO | HEX | BASE64 | PYTHON

text \<open>\<open>"" + e\<close> for a caught error object.\<close>

fun error_toString :: "error \<Rightarrow> string" where
  "error_toString (Error m) = ''Error: '' @ m"
| "error_toString RangeError = ''RangeError''"

text \<open>
  One \<open>try { return {bytes, format} } catch (e) { errors.push(label + e) }\<close>: the
  result when the recovery returned, else the grown \<open>errors\<close> array.
\<close>

definition attempt ::
  "string \<Rightarrow> InputFormat \<Rightarrow> error + bytes \<Rightarrow> string list \<Rightarrow> (bytes \<times> InputFormat) option \<times> string list" where
  "attempt label fmt r errors =
     (case r of
        Inr bs \<Rightarrow> (Some (bs, fmt), errors)
      | Inl e \<Rightarrow> (None, errors @ [label @ error_toString e]))"

text \<open>The guards of the four candidates, on the trimmed text.\<close>

definition python_candidate :: "jsstring \<Rightarrow> bool" where
  "python_candidate clean \<longleftrightarrow> startsWith clean b_squote \<or> startsWith clean b_dquote"

definition hex_candidate :: "jsstring \<Rightarrow> bool" where
  "hex_candidate clean \<longleftrightarrow>
     (let hexClean = remove_ws (replace_0x clean)
      in length hexClean > 0 \<and> length hexClean mod 2 = 0 \<and> hexRe_test hexClean)"

definition base64_candidate :: "jsstring \<Rightarrow> bool" where
  "base64_candidate clean \<longleftrightarrow>
     length clean mod 4 = 0 \<and> base64Re_test clean \<and> \<not> str_includes clean (js '' '')"

definition fallback_candidate :: "jsstring \<Rightarrow> bool" where
  "fallback_candidate clean \<longleftrightarrow> str_includes clean backslash_x"

text \<open>
  \<open>autoDetectAndDecode\<close>, step by step, together with the local \<open>errors\<close> array as it
  stands when the function returns or throws.
\<close>

definition autoDetect_trace :: "jsstring \<Rightarrow> (error + bytes \<times> InputFormat) \<times> string list" where
  "autoDetect_trace input =
     (let clean = trim input;
          errors = [];
          (r1, errors) =
            (if python_candidate clean
             then attempt ''Python: '' PYTHON (Inr (parsePythonBytes clean)) errors
             else (None, errors))
      in case r1 of Some res \<Rightarrow> (Inr res, errors) | None \<Rightarrow>
     (let (r2, errors) =
            (if hex_candidate clean
             then attempt ''Hex: '' HEX (parseHex clean) errors
             else (None, errors))
      in case r2 of Some res \<Rightarrow> (Inr res, errors) | None \<Rightarrow>
     (let (r3, errors) =
            (if base64_candidate clean
             then attempt ''Base64: '' BASE64 (parseBase64 clean) errors
             else (None, errors))
      in case r3 of Some res \<Rightarrow> (Inr res, errors) | None \<Rightarrow>
     (let (r4, errors) =
            (if fallback_candidate clean
             then attempt ''PythonFallback: '' PYTHON (Inr (parsePythonBytes clean)) errors
             else (None, errors))
      in case r4 of Some res \<Rightarrow> (Inr res, errors) | None \<Rightarrow>
        (Inl (Error ''Could not auto-detect format. Please select one manually.''), errors)))))"

definition autoDetectAndDecode :: "jsstring \<Rightarrow> error + bytes \<times> InputFormat" where
  "autoDetectAndDecode input = fst (autoDetect_trace input)"

section \<open>The decoded tree\<close>

datatype DataType =
  NULL | BOOLEAN | INTEGER | FLOAT | STRING | BINARY | ARRAY | MAP | EXTENSION | UNKNOWN

text \<open>
  What the \<open>value\<close> field of a node holds. \<open>VNumber\<close> is a JavaScript number read as
  an integer of at most 32 bits, \<open>VBigInt\<close> a \<open>bigint\<close>; the numbers read by
  \<open>getFloat32\<close> and \<open>getFloat64\<close> are kept as the bits they were read from.
\<close>

datatype jsvalue =
    VNull
  | VBool bool
  | VNumber int
  | VBigInt int
  | VFloat32 "32 word"
  | VFloat64 "64 word"
  | VString jsstring
  | VBytes bytes

text \<open>
  \<open>ParsedNode\<close>. The optional fields \<open>rawType\<close>, \<open>children\<close>, \<open>byteLength\<close> and
  \<open>meta\<close> (of which only \<open>meta.type\<close> is ever set) are options; \<open>key\<close> is
  \<open>undefined\<close>, an unwrapped value, or a whole node.
\<close>

datatype node =
  Node (node_id: string) (node_key: key) (node_value: jsvalue) (node_type: DataType)
       (rawType: "string option") (children: "node list option") (byteLength: "nat option")
       (meta: "int option")
and key = KUndefined | KValue jsvalue | KNode node

section \<open>Numbers as text\<close>

text \<open>Decimal and hexadecimal digits of a natural number, as template literals print them.\<close>

function show_nat :: "nat \<Rightarrow> string" where
  "show_nat n =
     (if n < 10 then [''0123456789'' ! n]
      else show_nat (n div 10) @ [''0123456789'' ! (n mod 10)])"
  by pat_completeness auto
termination
  by (relation "measure id") auto

declare show_nat.simps [simp del]

function toString16 :: "nat \<Rightarrow> string" where
  "toString16 n =
     (if n < 16 then [''0123456789abcdef'' ! n]
      else toString16 (n div 16) @ [''0123456789abcdef'' ! (n mod 16)])"
  by pat_completeness auto
termination
  by (relation "measure id") auto

declare toString16.simps [simp del]

definition show_int :: "int \<Rightarrow> string" where
  "show_int v = (if v < 0 then ''-'' @ show_nat (nat (- v)) else show_nat (nat v))"

section \<open>The node counter\<close>

text \<open>
  \<open>generateId\<close> reads the module variable \<open>nodeIdCounter\<close> and increments it: the
  counter is passed in and the new one returned.
\<close>

definition generateId :: "nat \<Rightarrow> string \<times> nat" where
  "generateId nodeIdCounter = (''node-'' @ show_nat nodeIdCounter, nodeIdCounter + 1)"

section \<open>Reading the buffer\<close>

text \<open>
  The \<open>DataView\<close> covers the whole buffer. A getter of width \<open>w\<close> at \<open>off\<close> throws a
  RangeError unless \<open>off + w\<close> fits; multi-byte fields are big-endian.
\<close>

definition view_bytes :: "bytes \<Rightarrow> nat \<Rightarrow> nat \<Rightarrow> error + bytes" where
  "view_bytes buf off w = (if off + w > length buf then Inl RangeError else Inr (take w (drop off buf)))"

definition be_nat :: "bytes \<Rightarrow> nat" where
  "be_nat bs = foldl (\<lambda>a b. a * 256 + unat b) 0 bs"

definition getUint :: "nat \<Rightarrow> bytes \<Rightarrow> nat \<Rightarrow> error + nat" where
  "getUint w buf off = (case view_bytes buf off w of Inl e \<Rightarrow> Inl e | Inr bs \<Rightarrow> Inr (be_nat bs))"

definition getInt :: "nat \<Rightarrow> bytes \<Rightarrow> nat \<Rightarrow> error + int" where
  "getInt w buf off =
     (case view_bytes buf off w of
        Inl e \<Rightarrow> Inl e
      | Inr bs \<Rightarrow>
          Inr (if be_nat bs \<ge> 2 ^ (8 * w - 1) then int (be_nat bs) - 2 ^ (8 * w) else int (be_nat bs)))"

definition getUint8 :: "bytes \<Rightarrow> nat \<Rightarrow> error + nat" where "getUint8 = getUint 1"
definition getUint16 :: "bytes \<Rightarrow> nat \<Rightarrow> error + nat" where "getUint16 = getUint 2"
definition getUint32 :: "bytes \<Rightarrow> nat \<Rightarrow> error + nat" where "getUint32 = getUint 4"
definition getBigUint64 :: "bytes \<Rightarrow> nat \<Rightarrow> error + nat" where "getBigUint64 = getUint 8"
definition getInt8 :: "bytes \<Rightarrow> nat \<Rightarrow> error + int" where "getInt8 = getInt 1"
definition getInt16 :: "bytes \<Rightarrow> nat \<Rightarrow> error + int" where "getInt16 = getInt 2"
definition getInt32 :: "bytes \<Rightarrow> nat \<Rightarrow> error + int" where "getInt32 = getInt 4"
definition getBigInt64 :: "bytes \<Rightarrow> nat \<Rightarrow> error + int" where "getBigInt64 = getInt 8"

definition getFloat32 :: "bytes \<Rightarrow> nat \<Rightarrow> error + 32 word" where
  "getFloat32 buf off = (case view_bytes buf off 4 of Inl e \<Rightarrow> Inl e | Inr bs \<Rightarrow> Inr (of_nat (be_nat bs)))"

definition getFloat64 :: "bytes \<Rightarrow> nat \<Rightarrow> error + 64 word" where
  "getFloat64 buf off = (case view_bytes buf off 8 of Inl e \<Rightarrow> Inl e | Inr bs \<Rightarrow> Inr (of_nat (be_nat bs)))"

text \<open>
  \<open>new TextDecoder().decode(sub)\<close>: the platform's UTF-8 decoder. A leading byte order
  mark is dropped, every malformed sequence becomes U+FFFD, and the byte that broke a
  sequence is read again as the start of the next one. The state is the code point
  being built, the continuation bytes needed and seen, and the bounds of the next byte.
\<close>

fun utf8_decode :: "nat \<Rightarrow> nat \<Rightarrow> nat \<Rightarrow> nat \<Rightarrow> nat \<Rightarrow> nat list \<Rightarrow> nat list" where
  "utf8_decode cp needed seen lo hi [] = (if needed \<noteq> 0 then [0xFFFD] else [])"
| "utf8_decode cp needed seen lo hi (b # bs) =
     (if needed = 0 then
        (if b \<le> 0x7F then b # utf8_decode 0 0 0 0x80 0xBF bs
         else if 0xC2 \<le> b \<and> b \<le> 0xDF then utf8_decode (b mod 32) 1 0 0x80 0xBF bs
         else if 0xE0 \<le> b \<and> b \<le> 0xEF then
           utf8_decode (b mod 16) 2 0 (if b = 0xE0 then 0xA0 else 0x80)
             (if b = 0xED then 0x9F else 0xBF) bs
         else if 0xF0 \<le> b \<and> b \<le> 0xF4 then
           utf8_decode (b mod 8) 3 0 (if b = 0xF0 then 0x90 else 0x80)
             (if b = 0xF4 then 0x8F else 0xBF) bs
         else 0xFFFD # utf8_decode 0 0 0 0x80 0xBF bs)
      else if b < lo \<or> hi < b then 0xFFFD # utf8_decode 0 0 0 0x80 0xBF (b # bs)
      else if seen + 1 \<noteq> needed then utf8_decode (cp * 64 + b mod 64) needed (seen + 1) 0x80 0xBF bs
      else (cp * 64 + b mod 64) # utf8_decode 0 0 0 0x80 0xBF bs)"

definition utf16_units :: "nat \<Rightarrow> jsstring" where
  "utf16_units cp =
     (if cp < 0x10000 then [of_nat cp]
      else [of_nat (0xD800 + (cp - 0x10000) div 0x400), of_nat (0xDC00 + (cp - 0x10000) mod 0x400)])"

definition strip_bom :: "bytes \<Rightarrow> bytes" where
  "strip_bom bs = (if take 3 bs = [0xEF, 0xBB, 0xBF] then drop 3 bs else bs)"

definition TextDecoder_decode :: "bytes \<Rightarrow> jsstring" where
  "TextDecoder_decode sub =
     concat (map utf16_units (utf8_decode 0 0 0 0x80 0xBF (map unat (strip_bom sub))))"

text \<open>
  \<open>readString\<close> and \<open>readBin\<close> at offset \<open>off\<close>: the value read and the new offset, or
  the error thrown.
\<close>

definition readString :: "bytes \<Rightarrow> nat \<Rightarrow> nat \<Rightarrow> error + jsstring \<times> nat" where
  "readString buf off len =
     (let end = off + len in
      if end > length buf then Inl (Error ''Unexpected end of input (String)'')
      else Inr (TextDecoder_decode (take (end - off) (drop off buf)), end))"

definition readBin :: "bytes \<Rightarrow> nat \<Rightarrow> nat \<Rightarrow> error + bytes \<times> nat" where
  "readBin buf off len =
     (let end = off + len in
      if end > length buf then Inl (Error ''Unexpected end of input (Binary)'')
      else Inr (take (end - off) (drop off buf), end))"

definition getKey :: "node \<Rightarrow> key" where
  "getKey k =
     (if node_type k = STRING \<or> node_type k = INTEGER \<or> node_type k = BOOLEAN \<or>
         node_type k = FLOAT \<or> node_type k = NULL
      then KValue (node_value k)
      else KNode k)"

section \<open>The decoder\<close>

text \<open>
  A step of the parser returns the value, the new offset and the new node counter, or
  the error thrown. \<open>bindE\<close> runs the next read unless the previous one threw.
\<close>

definition bindE :: "error + 'a \<Rightarrow> ('a \<Rightarrow> error + 'b) \<Rightarrow> error + 'b" where
  "bindE r f = (case r of Inl e \<Rightarrow> Inl e | Inr x \<Rightarrow> f x)"

text \<open>
  \<open>readExt\<close>: the object it returns is a new one, with its own id and without the
  \<open>key\<close> field.
\<close>

definition readExt :: "bytes \<Rightarrow> nat \<Rightarrow> nat \<Rightarrow> nat \<Rightarrow> string \<Rightarrow> error + node \<times> nat \<times> nat" where
  "readExt buf off ctr len rawTypeLabel =
     bindE (getInt8 buf off) (\<lambda>ty.
     bindE (readBin buf (off + 1) len) (\<lambda>(data, off').
       let (nid, ctr') = generateId ctr in
       Inr (Node nid KUndefined (VBytes data) EXTENSION (Some rawTypeLabel) None (Some len) (Some ty),
            off', ctr')))"

text \<open>The node of \<open>parse\<close> once a branch without children has filled it in.\<close>

definition leaf :: "string \<Rightarrow> key \<Rightarrow> DataType \<Rightarrow> string \<Rightarrow> jsvalue \<Rightarrow> nat option \<Rightarrow> node" where
  "leaf nid key ty raw v bl = Node nid key v ty (Some raw) None bl None"

text \<open>The families of \<open>switch\<close> cases: binary, string, integer, float, extension.\<close>

definition bin_case ::
  "(bytes \<Rightarrow> nat \<Rightarrow> error + nat) \<Rightarrow> nat \<Rightarrow> string \<Rightarrow> bytes \<Rightarrow> nat \<Rightarrow> string \<Rightarrow> key \<Rightarrow> nat
     \<Rightarrow> error + node \<times> nat \<times> nat" where
  "bin_case getLen w label buf off nid key ctr =
     bindE (getLen buf off) (\<lambda>len.
     bindE (readBin buf (off + w) len) (\<lambda>(data, off').
       Inr (leaf nid key BINARY (label @ ''('' @ show_nat len @ '')'') (VBytes data) (Some len), off', ctr)))"

definition str_case ::
  "(bytes \<Rightarrow> nat \<Rightarrow> error + nat) \<Rightarrow> nat \<Rightarrow> string \<Rightarrow> bytes \<Rightarrow> nat \<Rightarrow> string \<Rightarrow> key \<Rightarrow> nat
     \<Rightarrow> error + node \<times> nat \<times> nat" where
  "str_case getLen w label buf off nid key ctr =
     bindE (getLen buf off) (\<lambda>len.
     bindE (readString buf (off + w) len) (\<lambda>(s, off').
       Inr (leaf nid key STRING (label @ ''('' @ show_nat len @ '')'') (VString s) (Some len), off', ctr)))"

definition uint_case ::
  "(bytes \<Rightarrow> nat \<Rightarrow> error + nat) \<Rightarrow> nat \<Rightarrow> string \<Rightarrow> (int \<Rightarrow> jsvalue) \<Rightarrow> bytes \<Rightarrow> nat \<Rightarrow> string
     \<Rightarrow> key \<Rightarrow> nat \<Rightarrow> error + node \<times> nat \<times> nat" where
  "uint_case get w label mk buf off nid key ctr =
     bindE (get buf off) (\<lambda>v. Inr (leaf nid key INTEGER label (mk (int v)) None, off + w, ctr))"

definition int_case ::
  "(bytes \<Rightarrow> nat \<Rightarrow> error + int) \<Rightarrow> nat \<Rightarrow> string \<Rightarrow> (int \<Rightarrow> jsvalue) \<Rightarrow> bytes \<Rightarrow> nat \<Rightarrow> string
     \<Rightarrow> key \<Rightarrow> nat \<Rightarrow> error + node \<times> nat \<times> nat" where
  "int_case get w label mk buf off nid key ctr =
     bindE (get buf off) (\<lambda>v. Inr (leaf nid key INTEGER label (mk v) None, off + w, ctr))"

definition ext_case ::
  "(bytes \<Rightarrow> nat \<Rightarrow> error + nat) \<Rightarrow> nat \<Rightarrow> string \<Rightarrow> bytes \<Rightarrow> nat \<Rightarrow> nat
     \<Rightarrow> error + node \<times> nat \<times> nat" where
  "ext_case getLen w label buf off ctr =
     bindE (getLen buf off) (\<lambda>len. readExt buf (off + w) ctr len label)"

text \<open>
  The cases of the \<open>switch (byte)\<close> that read no children. \<open>off\<close> is the offset after
  the tag byte, \<open>id\<close> and \<open>key\<close> are already in the node, \<open>ctr\<close> is the counter after
  that id.
\<close>

definition parse_switch ::
  "bytes \<Rightarrow> nat \<Rightarrow> byte \<Rightarrow> string \<Rightarrow> key \<Rightarrow> nat \<Rightarrow> error + node \<times> nat \<times> nat" where
  "parse_switch buf off byte nid key ctr =
     (if byte = 0xc0 then Inr (leaf nid key NULL ''nil'' VNull None, off, ctr)
      else if byte = 0xc2 then Inr (leaf nid key BOOLEAN ''false'' (VBool False) None, off, ctr)
      else if byte = 0xc3 then Inr (leaf nid key BOOLEAN ''true'' (VBool True) None, off, ctr)
      else if byte = 0xc4 then bin_case getUint8 1 ''bin8'' buf off nid key ctr
      else if byte = 0xc5 then bin_case getUint16 2 ''bin16'' buf off nid key ctr
      else if byte = 0xc6 then bin_case getUint32 4 ''bin32'' buf off nid key ctr
      else if byte = 0xca then
        bindE (getFloat32 buf off) (\<lambda>v. Inr (leaf nid key FLOAT ''float(32)'' (VFloat32 v) None, off + 4, ctr))
      else if byte = 0xcb then
        bindE (getFloat64 buf off) (\<lambda>v. Inr (leaf nid key FLOAT ''float(64)'' (VFloat64 v) None, off + 8, ctr))
      else if byte = 0xcc then uint_case getUint8 1 ''uint(8)'' VNumber buf off nid key ctr
      else if byte = 0xcd then uint_case getUint16 2 ''uint(16)'' VNumber buf off nid key ctr
      else if byte = 0xce then uint_case getUint32 4 ''uint(32)'' VNumber buf off nid key ctr
      else if byte = 0xcf then uint_case getBigUint64 8 ''uint(64)'' VBigInt buf off nid key ctr
      else if byte = 0xd0 then int_case getInt8 1 ''int(8)'' VNumber buf off nid key ctr
      else if byte = 0xd1 then int_case getInt16 2 ''int(16)'' VNumber buf off nid key ctr
      else if byte = 0xd2 then int_case getInt32 4 ''int(32)'' VNumber buf off nid key ctr
      else if byte = 0xd3 then int_case getBigInt64 8 ''int(64)'' VBigInt buf off nid key ctr
      else if byte = 0xd4 then readExt buf off ctr 1 ''fixext1''
      else if byte = 0xd5 then readExt buf off ctr 2 ''fixext2''
      else if byte = 0xd6 then readExt buf off ctr 4 ''fixext4''
      else if byte = 0xd7 then readExt buf off ctr 8 ''fixext8''
      else if byte = 0xd8 then readExt buf off ctr 16 ''fixext16''
      else if byte = 0xc7 then ext_case getUint8 1 ''ext8'' buf off ctr
      else if byte = 0xc8 then ext_case getUint16 2 ''ext16'' buf off ctr
      else if byte = 0xc9 then ext_case getUint32 4 ''ext32'' buf off ctr
      else if byte = 0xd9 then str_case getUint8 1 ''str8'' buf off nid key ctr
      else if byte = 0xda then str_case getUint16 2 ''str16'' buf off nid key ctr
      else if byte = 0xdb then str_case getUint32 4 ''str32'' buf off nid key ctr
      else Inl (Error (''Unknown byte 0x'' @ toString16 (unat byte) @ '' at offset '' @ show_nat (off - 1))))"

text \<open>
  The loops over the children. \<open>p off key ctr\<close> is \<open>this.parse(key)\<close> at offset \<open>off\<close>
  with counter \<open>ctr\<close>; \<open>None\<close> stands for a call that has not returned. \<open>n\<close> counts
  the iterations still to run and \<open>acc\<close> is \<open>node.children\<close> so far.
\<close>

type_synonym 'a step = "(error + 'a \<times> nat \<times> nat) option"

fun array_loop :: "(nat \<Rightarrow> key \<Rightarrow> nat \<Rightarrow> node step) \<Rightarrow> nat \<Rightarrow> node list \<Rightarrow> nat \<Rightarrow> nat \<Rightarrow> node list step" where
  "array_loop p 0 acc off ctr = Some (Inr (acc, off, ctr))"
| "array_loop p (Suc n) acc off ctr =
     (case p off KUndefined ctr of
        None \<Rightarrow> None
      | Some (Inl e) \<Rightarrow> Some (Inl e)
      | Some (Inr (v, off', ctr')) \<Rightarrow> array_loop p n (acc @ [v]) off' ctr')"

fun map_loop :: "(nat \<Rightarrow> key \<Rightarrow> nat \<Rightarrow> node step) \<Rightarrow> nat \<Rightarrow> node list \<Rightarrow> nat \<Rightarrow> nat \<Rightarrow> node list step" where
  "map_loop p 0 acc off ctr = Some (Inr (acc, off, ctr))"
| "map_loop p (Suc n) acc off ctr =
     (case p off KUndefined ctr of
        None \<Rightarrow> None
      | Some (Inl e) \<Rightarrow> Some (Inl e)
      | Some (Inr (k, off1, ctr1)) \<Rightarrow>
          (case p off1 (getKey k) ctr1 of
             None \<Rightarrow> None
           | Some (Inl e) \<Rightarrow> Some (Inl e)
           | Some (Inr (v, off2, ctr2)) \<Rightarrow> map_loop p n (acc @ [v]) off2 ctr2))"

definition container ::
  "string \<Rightarrow> key \<Rightarrow> DataType \<Rightarrow> string \<Rightarrow> nat \<Rightarrow> node list step \<Rightarrow> node step" where
  "container nid key ty raw len r =
     (case r of
        None \<Rightarrow> None
      | Some (Inl e) \<Rightarrow> Some (Inl e)
      | Some (Inr (cs, off', ctr')) \<Rightarrow>
          Some (Inr (Node nid key VNull ty (Some raw) (Some cs) (Some len) None, off', ctr')))"

text \<open>
  \<open>MsgpackParser.parse\<close> at offset \<open>off\<close> with node counter \<open>ctr\<close>. The first argument
  bounds the depth of the calls: \<open>parse 0\<close> has not returned. The four container cases
  of the \<open>switch\<close> stand before the others, which are \<open>parse_switch\<close>.
\<close>

primrec parse :: "nat \<Rightarrow> bytes \<Rightarrow> nat \<Rightarrow> key \<Rightarrow> nat \<Rightarrow> node step" where
  "parse 0 buf off key ctr = None"
| "parse (Suc fuel) buf off key ctr =
    (if off \<ge> length buf then Some (Inl (Error ''Unexpected end of input''))
     else
       (let byte = buf ! off;
            off1 = off + 1;
            (nid, ctr1) = generateId ctr
        in
        if byte \<le> 0x7f then
          Some (Inr (leaf nid key INTEGER ''fixint'' (VNumber (uint byte)) None, off1, ctr1))
        else if byte \<ge> 0xe0 then
          Some (Inr (leaf nid key INTEGER ''fixint'' (VNumber (uint byte - 0x100)) None, off1, ctr1))
        else if byte \<ge> 0x80 \<and> byte \<le> 0x8f then
          (let len = unat (byte AND 0x0f) in
           container nid key MAP (''map('' @ show_nat len @ '')'') len
             (map_loop (parse fuel buf) len [] off1 ctr1))
        else if byte \<ge> 0x90 \<and> byte \<le> 0x9f then
          (let len = unat (byte AND 0x0f) in
           container nid key ARRAY (''arr('' @ show_nat len @ '')'') len
             (array_loop (parse fuel buf) len [] off1 ctr1))
        else if byte \<ge> 0xa0 \<and> byte \<le> 0xbf then
          (let len = unat (byte AND 0x1f) in
           Some (bindE (readString buf off1 len) (\<lambda>(s, off').
             Inr (leaf nid key STRING (''str('' @ show_nat len @ '')'') (VString s) (Some len), off', ctr1))))
        else if byte = 0xdc then
          (case getUint16 buf off1 of
             Inl e \<Rightarrow> Some (Inl e)
           | Inr len \<Rightarrow>
               container nid key ARRAY (''arr16('' @ show_nat len @ '')'') len
                 (array_loop (parse fuel buf) len [] (off1 + 2) ctr1))
        else if byte = 0xdd then
          (case getUint32 buf off1 of
             Inl e \<Rightarrow> Some (Inl e)
           | Inr len \<Rightarrow>
               container nid key ARRAY (''arr32('' @ show_nat len @ '')'') len
                 (array_loop (parse fuel buf) len [] (off1 + 4) ctr1))
        else if byte = 0xde then
          (case getUint16 buf off1 of
             Inl e \<Rightarrow> Some (Inl e)
           | Inr len \<Rightarrow>
               container nid key MAP (''map16('' @ show_nat len @ '')'') len
                 (map_loop (parse fuel buf) len [] (off1 + 2) ctr1))
        else if byte = 0xdf then
          (case getUint32 buf off1 of
             Inl e \<Rightarrow> Some (Inl e)
           | Inr len \<Rightarrow>
               container nid key MAP (''map32('' @ show_nat len @ '')'') len
                 (map_loop (parse fuel buf) len [] (off1 + 4) ctr1))
        else Some (parse_switch buf off1 byte nid key ctr1)))"

declare parse.simps [simp del]

section \<open>The entry point\<close>

datatype ParseResult = Failure string | Success node InputFormat bytes

text \<open>
  \<open>e.message || "Failed to parse Msgpack"\<close>. The message of a RangeError is the
  engine's, here the parameter \<open>rangeMessage\<close>.
\<close>

definition error_message :: "string \<Rightarrow> error \<Rightarrow> string" where
  "error_message rangeMessage e =
     (let m = (case e of Error m \<Rightarrow> m | RangeError \<Rightarrow> rangeMessage)
      in if m = [] then ''Failed to parse Msgpack'' else m)"

text \<open>The byte recovery of \<open>parseMsgpack\<close>: the \<open>if (format === AUTO) ... else switch\<close>.\<close>

definition recover :: "jsstring \<Rightarrow> InputFormat \<Rightarrow> error + bytes \<times> InputFormat" where
  "recover input format =
     (case format of
        AUTO \<Rightarrow> autoDetectAndDecode input
      | HEX \<Rightarrow> bindE (parseHex input) (\<lambda>bs. Inr (bs, HEX))
      | BASE64 \<Rightarrow> bindE (parseBase64 input) (\<lambda>bs. Inr (bs, BASE64))
      | PYTHON \<Rightarrow> Inr (parsePythonBytes input, PYTHON))"

text \<open>
  \<open>parseMsgpack\<close>. \<open>nodeIdCounter\<close> is the module variable as the call finds it; the
  first statement overwrites it, and the value the call leaves is not returned, since
  nothing reads it before the next call overwrites it again. The parser is given depth
  for one call per byte and one more; \<open>None\<close> would be a parse that did not return
  within it.
\<close>

definition parseMsgpack :: "string \<Rightarrow> nat \<Rightarrow> jsstring \<Rightarrow> InputFormat \<Rightarrow> ParseResult option" where
  "parseMsgpack rangeMessage nodeIdCounter input format =
     (let nodeIdCounter = 0 in
      case recover input format of
        Inl e \<Rightarrow> Some (Failure (error_message rangeMessage e))
      | Inr (bytes, detected) \<Rightarrow>
          if bytes = [] then Some (Failure ''Empty input'')
          else
            (case parse (Suc (length bytes)) bytes 0 KUndefined nodeIdCounter of
               None \<Rightarrow> None
             | Some (Inl e) \<Rightarrow> Some (Failure (error_message rangeMessage e))
             | Some (Inr (rootNode, off, ctr)) \<Rightarrow> Some (Success rootNode detected bytes)))"

section \<open>The projection to a plain value\<close>

text \<open>
  What \<open>serializeNode\<close> returns. An object is the list of its own properties in the
  order the engine enumerates them: the keys that are array indices (a decimal numeral
  without a leading zero, at most \<open>2^32 - 2\<close>) first, in ascending numeric order, then
  the other keys in the order they were first set. Setting a property that exists
  replaces its value in place; setting \<open>__proto__\<close> on an object literal reaches the
  inherited accessor and creates no property.
\<close>

datatype plain =
    PNull
  | PUndefined
  | PBool bool
  | PNumber int
  | PBigInt int
  | PFloat32 "32 word"
  | PFloat64 "64 word"
  | PString jsstring
  | PBytes bytes
  | PArray "plain list"
  | PObject "(jsstring \<times> plain) list"

fun plain_of_value :: "jsvalue \<Rightarrow> plain" where
  "plain_of_value VNull = PNull"
| "plain_of_value (VBool b) = PBool b"
| "plain_of_value (VNumber i) = PNumber i"
| "plain_of_value (VBigInt i) = PBigInt i"
| "plain_of_value (VFloat32 w) = PFloat32 w"
| "plain_of_value (VFloat64 w) = PFloat64 w"
| "plain_of_value (VString s) = PString s"
| "plain_of_value (VBytes b) = PBytes b"

definition dec_value :: "jsstring \<Rightarrow> int" where
  "dec_value s = foldl (\<lambda>a c. 10 * a + (uint c - 48)) 0 s"

definition is_array_index :: "jsstring \<Rightarrow> bool" where
  "is_array_index s \<longleftrightarrow>
     s \<noteq> [] \<and> list_all (\<lambda>c. 0x30 \<le> c \<and> c \<le> 0x39) s
     \<and> (s = [0x30] \<or> hd s \<noteq> 0x30) \<and> dec_value s \<le> 4294967294"

fun obj_replace :: "(jsstring \<times> plain) list \<Rightarrow> jsstring \<Rightarrow> plain \<Rightarrow> (jsstring \<times> plain) list" where
  "obj_replace [] k x = []"
| "obj_replace ((k', x') # obj) k x =
     (if k' = k then (k, x) # obj else (k', x') # obj_replace obj k x)"

fun obj_insert_index :: "(jsstring \<times> plain) list \<Rightarrow> jsstring \<Rightarrow> plain \<Rightarrow> (jsstring \<times> plain) list" where
  "obj_insert_index [] k x = [(k, x)]"
| "obj_insert_index ((k', x') # obj) k x =
     (if is_array_index k' \<and> dec_value k' < dec_value k
      then (k', x') # obj_insert_index obj k x
      else (k, x) # (k', x') # obj)"

definition obj_set :: "(jsstring \<times> plain) list \<Rightarrow> jsstring \<Rightarrow> plain \<Rightarrow> (jsstring \<times> plain) list" where
  "obj_set obj k x =
     (if k = js ''__proto__'' then obj
      else if k \<in> set (map fst obj) then obj_replace obj k x
      else if is_array_index k then obj_insert_index obj k x
      else obj @ [(k, x)])"

text \<open>\<open>bytesToBase64\<close>: \<open>btoa\<close> of the bytes, three at a time, padded with \<open>=\<close>.\<close>

definition b64_char :: "nat \<Rightarrow> jschar" where
  "b64_char i =
     of_char (''ABCDEFGHIJKLMNOPQRSTUVWXYZabcdefghijklmnopqrstuvwxyz0123456789+/'' ! i)"

fun btoa_groups :: "nat list \<Rightarrow> jsstring" where
  "btoa_groups (a # b # c # rest) =
     b64_char (a div 4) # b64_char ((a mod 4) * 16 + b div 16)
       # b64_char ((b mod 16) * 4 + c div 64) # b64_char (c mod 64) # btoa_groups rest"
| "btoa_groups [a, b] =
     [b64_char (a div 4), b64_char ((a mod 4) * 16 + b div 16), b64_char ((b mod 16) * 4), 0x3D]"
| "btoa_groups [a] = [b64_char (a div 4), b64_char ((a mod 4) * 16), 0x3D, 0x3D]"
| "btoa_groups [] = []"

definition bytesToBase64 :: "bytes \<Rightarrow> jsstring" where
  "bytesToBase64 bs = btoa_groups (map unat bs)"

text \<open>
  \<open>serializeNode\<close>. \<open>JSON_stringify\<close> and \<open>String\<close> are the platform's
  \<open>JSON.stringify\<close> on a plain value and \<open>String(...)\<close> on a key that is neither a
  string nor an object. A value cast \<open>as Uint8Array\<close> that is no byte array has no
  \<open>byteLength\<close>, and the loop of \<open>bytesToBase64\<close> does not run.
\<close>

function (sequential) serializeNode :: "(plain \<Rightarrow> jsstring) \<Rightarrow> (key \<Rightarrow> jsstring) \<Rightarrow> node \<Rightarrow> plain" where
  "serializeNode JSON_stringify String (Node nid key v ty raw ch bl mt) =
     (case ty of
        MAP \<Rightarrow>
          PObject
            (case ch of
               None \<Rightarrow> []
             | Some cs \<Rightarrow>
                 foldl (\<lambda>obj (keyStr, x). obj_set obj keyStr x) []
                   (map (\<lambda>child.
                          (case node_key child of
                             KValue (VString s) \<Rightarrow> s
                           | KValue (VBytes b) \<Rightarrow> js ''undefined''
                           | KNode k \<Rightarrow> JSON_stringify (serializeNode JSON_stringify String k)
                           | other \<Rightarrow> String other,
                           serializeNode JSON_stringify String child))
                      cs))
      | ARRAY \<Rightarrow>
          (case ch of
             None \<Rightarrow> PUndefined
           | Some cs \<Rightarrow> PArray (map (serializeNode JSON_stringify String) cs))
      | BINARY \<Rightarrow> PString (bytesToBase64 (case v of VBytes b \<Rightarrow> b | _ \<Rightarrow> []))
      | INTEGER \<Rightarrow> (case v of VBigInt i \<Rightarrow> PString (js (show_int i)) | _ \<Rightarrow> plain_of_value v)
      | EXTENSION \<Rightarrow>
          PObject
            [(js ''__ext_type'', case mt of None \<Rightarrow> PUndefined | Some t \<Rightarrow> PNumber t),
             (js ''data'', PString (bytesToBase64 (case v of VBytes b \<Rightarrow> b | _ \<Rightarrow> [])))]
      | NULL \<Rightarrow> PNull
      | _ \<Rightarrow> plain_of_value v)"
  by pat_completeness auto
termination
proof -
  have key_size: "node_key x = KNode k \<Longrightarrow> size k < size x" for x k
    by (cases x) simp
  have mem: "x \<in> set xs \<Longrightarrow> size x \<le> size_list size xs" for x :: node and xs
    by (induction xs) auto
  show ?thesis
  proof (relation "measure (\<lambda>(JSON_stringify, String, n). size n)", goal_cases)
    case 1
    show ?case by simp
  next
    case (2 JSON_stringify String nid key v ty raw ch bl mt cs child)
    then show ?case using mem [of child cs] by simp
  next
    case (3 JSON_stringify String nid key v ty raw ch bl mt cs child k)
    then show ?case using mem [of child cs] key_size [of child k] by simp
  next
    case (4 JSON_stringify String nid key v ty raw ch bl mt cs child)
    then show ?case using mem [of child cs] by simp
  qed
qed

section \<open>Auxiliary notions for the statements\<close>

text \<open>
  The dispatch of \<open>parse\<close> seen as two tables: the six container encodings with the
  kind, label, length and offset of the first child, and every other tag.
  \<open>parse_Suc_view\<close> below proves that \<open>parse\<close> is this dispatch.
\<close>

definition container_tag :: "byte \<Rightarrow> bool" where
  "container_tag byte \<longleftrightarrow>
     (0x80 \<le> byte \<and> byte \<le> 0x9f) \<or> byte = 0xdc \<or> byte = 0xdd \<or> byte = 0xde \<or> byte = 0xdf"

definition container_header :: "bytes \<Rightarrow> nat \<Rightarrow> byte \<Rightarrow> error + bool \<times> string \<times> nat \<times> nat" where
  "container_header buf off1 byte =
     (if byte \<ge> 0x80 \<and> byte \<le> 0x8f then
        Inr (True, ''map('' @ show_nat (unat (byte AND 0x0f)) @ '')'', unat (byte AND 0x0f), off1)
      else if byte \<ge> 0x90 \<and> byte \<le> 0x9f then
        Inr (False, ''arr('' @ show_nat (unat (byte AND 0x0f)) @ '')'', unat (byte AND 0x0f), off1)
      else if byte = 0xdc then
        bindE (getUint16 buf off1) (\<lambda>len. Inr (False, ''arr16('' @ show_nat len @ '')'', len, off1 + 2))
      else if byte = 0xdd then
        bindE (getUint32 buf off1) (\<lambda>len. Inr (False, ''arr32('' @ show_nat len @ '')'', len, off1 + 4))
      else if byte = 0xde then
        bindE (getUint16 buf off1) (\<lambda>len. Inr (True, ''map16('' @ show_nat len @ '')'', len, off1 + 2))
      else
        bindE (getUint32 buf off1) (\<lambda>len. Inr (True, ''map32('' @ show_nat len @ '')'', len, off1 + 4)))"

definition scalar_step ::
  "bytes \<Rightarrow> nat \<Rightarrow> byte \<Rightarrow> string \<Rightarrow> key \<Rightarrow> nat \<Rightarrow> error + node \<times> nat \<times> nat" where
  "scalar_step buf off1 byte nid key ctr1 =
     (if byte \<le> 0x7f then
        Inr (leaf nid key INTEGER ''fixint'' (VNumber (uint byte)) None, off1, ctr1)
      else if byte \<ge> 0xe0 then
        Inr (leaf nid key INTEGER ''fixint'' (VNumber (uint byte - 0x100)) None, off1, ctr1)
      else if byte \<ge> 0xa0 \<and> byte \<le> 0xbf then
        bindE (readString buf off1 (unat (byte AND 0x1f))) (\<lambda>(s, off').
          Inr (leaf nid key STRING (''str('' @ show_nat (unat (byte AND 0x1f)) @ '')'') (VString s)
                 (Some (unat (byte AND 0x1f))), off', ctr1))
      else parse_switch buf off1 byte nid key ctr1)"

definition children_loop ::
  "bool \<Rightarrow> (nat \<Rightarrow> key \<Rightarrow> nat \<Rightarrow> node step) \<Rightarrow> nat \<Rightarrow> node list \<Rightarrow> nat \<Rightarrow> nat \<Rightarrow> node list step" where
  "children_loop isMap = (if isMap then map_loop else array_loop)"

text \<open>The errors of a read that runs past the end of the buffer.\<close>

definition truncation_error :: "error \<Rightarrow> bool" where
  "truncation_error e \<longleftrightarrow>
     e = RangeError \<or> e = Error ''Unexpected end of input'' \<or>
     e = Error ''Unexpected end of input (String)'' \<or> e = Error ''Unexpected end of input (Binary)''"

text \<open>
  A result is stable when it is a value or an error other than a truncation error:
  such a result does not depend on the bytes that may follow in the buffer.
\<close>

definition stable :: "error + 'a \<Rightarrow> bool" where
  "stable r \<longleftrightarrow> (\<forall>e. r = Inl e \<longrightarrow> \<not> truncation_error e)"

text \<open>
  A step has returned acceptably when it is there (not \<open>None\<close>) and, if it is an
  error, the error is one that \<open>okE\<close> accepts.
\<close>

definition returned :: "(error \<Rightarrow> bool) \<Rightarrow> 'a step \<Rightarrow> bool" where
  "returned okE r \<longleftrightarrow> (case r of None \<Rightarrow> False | Some (Inl e) \<Rightarrow> okE e | Some (Inr x) \<Rightarrow> True)"

text \<open>
  The ids of the nodes of a tree in the order the nodes were created: the node that
  is a key before the node that carries it, a node before its children, the children
  from first to last.
\<close>

primrec node_ids :: "node \<Rightarrow> string list" and key_ids :: "key \<Rightarrow> string list" where
  "node_ids (Node nid key v ty raw ch bl mt) =
     key_ids key @ nid # (case map_option (map node_ids) ch of None \<Rightarrow> [] | Some xs \<Rightarrow> concat xs)"
| "key_ids KUndefined = []"
| "key_ids (KValue v) = []"
| "key_ids (KNode k) = node_ids k"

text \<open>The id that \<open>generateId\<close> makes when the counter is \<open>k\<close>.\<close>

definition id_token :: "nat \<Rightarrow> string" where
  "id_token k = fst (generateId k)"

text \<open>
  A list of ids is a run between two counter values when it consists of the ids made
  at strictly increasing counter values from the first (included) to the second
  (excluded).
\<close>

definition id_run :: "nat \<Rightarrow> nat \<Rightarrow> string list \<Rightarrow> bool" where
  "id_run c c' xs \<longleftrightarrow> (\<exists>ks. xs = map id_token ks \<and> sorted_wrt (<) ks \<and> set ks \<subseteq> {c..<c'})"

section \<open>Properties of the hexadecimal recovery\<close>

lemma length_hex_loop: "length (hex_loop clean i bs) = length bs"
proof (induction clean i bs rule: hex_loop.induct)
  case (1 clean i bs)
  show ?case
  proof (cases "i < length clean")
    case True
    with 1 show ?thesis by (simp add: hex_loop.simps [of clean i bs])
  next
    case False
    then show ?thesis by (simp add: hex_loop.simps [of clean i bs])
  qed
qed

lemma hex_loop_below:
  "even i \<Longrightarrow> k < i div 2 \<Longrightarrow> hex_loop clean i bs ! k = bs ! k"
proof (induction clean i bs rule: hex_loop.induct)
  case (1 clean i bs)
  show ?case
  proof (cases "i < length clean")
    case True
    have "hex_loop clean i bs =
        hex_loop clean (i + 2) (bs[i div 2 := of_nat (parseInt16 (substring clean i (i + 2)))])"
      using True by (simp add: hex_loop.simps [of clean i bs])
    moreover have "hex_loop clean (i + 2) (bs[i div 2 := of_nat (parseInt16 (substring clean i (i + 2)))]) ! k
        = (bs[i div 2 := of_nat (parseInt16 (substring clean i (i + 2)))]) ! k"
      using 1 True by simp
    ultimately show ?thesis using "1.prems" by simp
  next
    case False
    then show ?thesis by (simp add: hex_loop.simps [of clean i bs])
  qed
qed

lemma hex_loop_at:
  "even i \<Longrightarrow> i div 2 \<le> k \<Longrightarrow> 2 * k < length clean \<Longrightarrow> k < length bs \<Longrightarrow>
   hex_loop clean i bs ! k = of_nat (parseInt16 (substring clean (2 * k) (2 * k + 2)))"
proof (induction clean i bs rule: hex_loop.induct)
  case (1 clean i bs)
  from "1.prems" have lt: "i < length clean" by auto
  let ?bs' = "bs[i div 2 := of_nat (parseInt16 (substring clean i (i + 2)))]"
  have unf: "hex_loop clean i bs = hex_loop clean (i + 2) ?bs'"
    using lt by (simp add: hex_loop.simps [of clean i bs])
  show ?case
  proof (cases "k = i div 2")
    case True
    have "hex_loop clean (i + 2) ?bs' ! k = ?bs' ! k"
      using True "1.prems" by (intro hex_loop_below) auto
    moreover have "2 * k = i" using True "1.prems" by auto
    ultimately show ?thesis using unf True "1.prems" by simp
  next
    case False
    have "hex_loop clean (i + 2) ?bs' ! k = of_nat (parseInt16 (substring clean (2 * k) (2 * k + 2)))"
      using False "1.prems" lt by (intro "1.IH") auto
    then show ?thesis using unf by simp
  qed
qed

lemma parseInt16_pair:
  "isHexDigit a \<Longrightarrow> isHexDigit b \<Longrightarrow> parseInt16 [a, b] = 16 * hexDigitValue a + hexDigitValue b"
  by (simp add: parseInt16_def)

lemma substring_pair:
  "i + 1 < length s \<Longrightarrow> substring s i (i + 2) = [s ! i, s ! (i + 1)]"
  by (simp add: substring_def take_Suc_conv_app_nth numeral_2_eq_2 Cons_nth_drop_Suc [symmetric])

lemma parseHex_success_shape:
  assumes "parseHex str = Inr bs"
  shows "length bs = length (hexClean str) div 2"
    and "\<forall>k<length bs. bs ! k =
           of_nat (16 * hexDigitValue (hexClean str ! (2 * k)) + hexDigitValue (hexClean str ! (2 * k + 1)))"
proof -
  let ?c = "hexClean str"
  from assms have ev: "even (length ?c)" and re: "hexRe_test ?c"
    and bs: "bs = hex_loop ?c 0 (replicate (length ?c div 2) 0)"
    by (auto simp: parseHex_def Let_def split: if_splits)
  show len: "length bs = length ?c div 2"
    by (simp add: bs length_hex_loop)
  show "\<forall>k<length bs. bs ! k =
           of_nat (16 * hexDigitValue (?c ! (2 * k)) + hexDigitValue (?c ! (2 * k + 1)))"
  proof (intro allI impI)
    fix k assume k: "k < length bs"
    with len ev have k2: "2 * k + 1 < length ?c" by (auto elim!: evenE)
    have hexd: "isHexDigit (?c ! (2 * k))" "isHexDigit (?c ! (2 * k + 1))"
      using re k2 by (auto simp: hexRe_test_def list_all_length)
    have "bs ! k = of_nat (parseInt16 (substring ?c (2 * k) (2 * k + 2)))"
      unfolding bs using k k2 len by (intro hex_loop_at) (auto simp: bs length_hex_loop)
    moreover have "parseInt16 (substring ?c (2 * k) (2 * k + 2)) =
           16 * hexDigitValue (?c ! (2 * k)) + hexDigitValue (?c ! (2 * k + 1))"
      using k2 hexd by (simp only: substring_pair parseInt16_pair)
    ultimately show "bs ! k =
           of_nat (16 * hexDigitValue (?c ! (2 * k)) + hexDigitValue (?c ! (2 * k + 1)))"
      by (simp only:)
  qed
qed

lemma parseHex_81a3666f6f: "parseHex (js ''81a3666f6f'') = Inr [0x81, 0xa3, 0x66, 0x6f, 0x6f]"
  by code_simp

lemma parseHex_0xAB: "parseHex (js ''0xAB'') = Inr [0xAB]"
  by code_simp

lemma parseHex_ab: "parseHex (js ''ab'') = Inr [0xAB]"
  by code_simp

lemma parseHex_empty: "parseHex (js '''') = Inl (Error ''Invalid Hex characters'')"
  by code_simp

text \<open>
  Claim C6, as the code has it. \<open>parseHex\<close> strips a leading \<open>0x\<close> and all white space;
  it fails exactly when the remaining text is empty, has odd length, or contains a
  character that is not a hexadecimal digit: with the message about the length when
  the length is odd, and with the message about the characters in every other failing
  case; otherwise byte \<open>k\<close> of the result is the value of the digit pair at
  \<open>2k, 2k+1\<close>, high digit first. \<open>parseHex("81a3666f6f")\<close> is the five bytes
  \<open>81 a3 66 6f 6f\<close> and \<open>parseHex("0xAB")\<close> equals \<open>parseHex("ab")\<close>.
\<close>

theorem parseHex_fails_iff:
  "(isl (parseHex str) \<longleftrightarrow>
      hexClean str = [] \<or> odd (length (hexClean str)) \<or> \<not> list_all isHexDigit (hexClean str))
   \<and> (\<forall>e. parseHex str = Inl e \<longrightarrow>
          e = Error ''Invalid Hex string length'' \<or> e = Error ''Invalid Hex characters'')
   \<and> (odd (length (hexClean str)) \<longrightarrow>
          parseHex str = Inl (Error ''Invalid Hex string length''))
   \<and> (even (length (hexClean str))
        \<and> (hexClean str = [] \<or> \<not> list_all isHexDigit (hexClean str)) \<longrightarrow>
          parseHex str = Inl (Error ''Invalid Hex characters''))
   \<and> (\<forall>bs. parseHex str = Inr bs \<longrightarrow>
          length bs = length (hexClean str) div 2 \<and>
          (\<forall>k<length bs. bs ! k =
             of_nat (16 * hexDigitValue (hexClean str ! (2 * k))
                     + hexDigitValue (hexClean str ! (2 * k + 1)))))
   \<and> parseHex (js ''81a3666f6f'') = Inr [0x81, 0xa3, 0x66, 0x6f, 0x6f]
   \<and> parseHex (js ''0xAB'') = parseHex (js ''ab'')"
proof -
  have a: "isl (parseHex str) \<longleftrightarrow>
      hexClean str = [] \<or> odd (length (hexClean str)) \<or> \<not> list_all isHexDigit (hexClean str)"
    by (auto simp: parseHex_def Let_def hexRe_test_def)
  have b: "\<forall>e. parseHex str = Inl e \<longrightarrow>
          e = Error ''Invalid Hex string length'' \<or> e = Error ''Invalid Hex characters''"
    by (auto simp: parseHex_def Let_def split: if_splits)
  have m1: "odd (length (hexClean str)) \<longrightarrow>
          parseHex str = Inl (Error ''Invalid Hex string length'')"
    by (simp add: parseHex_def Let_def odd_iff_mod_2_eq_one)
  have m2: "even (length (hexClean str))
        \<and> (hexClean str = [] \<or> \<not> list_all isHexDigit (hexClean str)) \<longrightarrow>
          parseHex str = Inl (Error ''Invalid Hex characters'')"
    by (auto simp: parseHex_def Let_def hexRe_test_def)
  have c: "\<forall>bs. parseHex str = Inr bs \<longrightarrow>
          length bs = length (hexClean str) div 2 \<and>
          (\<forall>k<length bs. bs ! k =
             of_nat (16 * hexDigitValue (hexClean str ! (2 * k))
                     + hexDigitValue (hexClean str ! (2 * k + 1))))"
    using parseHex_success_shape [of str] by blast
  have d: "parseHex (js ''0xAB'') = parseHex (js ''ab'')"
    by (simp only: parseHex_0xAB parseHex_ab)
  from a b m1 m2 c d parseHex_81a3666f6f show ?thesis by blast
qed

theorem parseHex_fails_iff_witness:
  "parseHex (js ''0xAB'') = Inr [0xAB]
   \<and> \<not> isl (parseHex (js ''0xAB''))
   \<and> [0xAB :: byte] ! 0 =
       of_nat (16 * hexDigitValue (hexClean (js ''0xAB'') ! 0) + hexDigitValue (hexClean (js ''0xAB'') ! 1))
   \<and> isl (parseHex (js ''abc''))
   \<and> (hexClean (js ''abc'') = [] \<or> odd (length (hexClean (js ''abc'')))
        \<or> \<not> list_all isHexDigit (hexClean (js ''abc'')))
   \<and> odd (length (hexClean (js ''abc'')))
   \<and> parseHex (js ''abc'') = Inl (Error ''Invalid Hex string length'')
   \<and> even (length (hexClean (js ''zz'')))
   \<and> \<not> list_all isHexDigit (hexClean (js ''zz''))
   \<and> parseHex (js ''zz'') = Inl (Error ''Invalid Hex characters'')"
proof -
  have ok: "parseHex (js ''0xAB'') = Inr [0xAB]" by (rule parseHex_0xAB)
  have bad: "isl (parseHex (js ''abc''))" by code_simp
  have o: "odd (length (hexClean (js ''abc'')))" by code_simp
  have e: "even (length (hexClean (js ''zz'')))" by code_simp
  have nh: "\<not> list_all isHexDigit (hexClean (js ''zz''))" by code_simp
  from parseHex_fails_iff [of "js ''0xAB''"] ok
  have "[0xAB :: byte] ! 0 =
       of_nat (16 * hexDigitValue (hexClean (js ''0xAB'') ! 0) + hexDigitValue (hexClean (js ''0xAB'') ! 1))"
    by fastforce
  moreover from parseHex_fails_iff [of "js ''abc''"] bad
  have "hexClean (js ''abc'') = [] \<or> odd (length (hexClean (js ''abc'')))
        \<or> \<not> list_all isHexDigit (hexClean (js ''abc''))"
    by blast
  moreover from parseHex_fails_iff [of "js ''abc''"] o
  have "parseHex (js ''abc'') = Inl (Error ''Invalid Hex string length'')"
    by blast
  moreover from parseHex_fails_iff [of "js ''zz''"] e nh
  have "parseHex (js ''zz'') = Inl (Error ''Invalid Hex characters'')"
    by blast
  ultimately show ?thesis using ok bad o e nh by simp
qed

text \<open>
  The claim's "exactly when the remaining text has odd length or contains a non-hex
  character" fails on the empty text: its length is even and it has no character at
  all, yet \<open>hexRe\<close> asks for at least one digit and \<open>parseHex\<close> throws.
\<close>

theorem parseHex_empty_counterexample:
  "parseHex (js '''') = Inl (Error ''Invalid Hex characters'')
   \<and> \<not> odd (length (hexClean (js '''')))
   \<and> list_all isHexDigit (hexClean (js ''''))"
  by (simp add: parseHex_empty) code_simp

section \<open>Properties of the escaped byte-string recovery\<close>

lemma py_loop_append: "py_loop content i (a @ bs) = a @ py_loop content i bs"
proof (induction content i bs rule: py_loop.induct)
  case (1 content i bs)
  show ?case
    apply (subst py_loop.simps [of content i "a @ bs"])
    apply (subst py_loop.simps [of content i bs])
    using 1 by (auto simp: Let_def simp del: append_assoc simp add: append_assoc [symmetric])
qed

lemma substring_shift:
  "substring (p @ s) (length p + a) (length p + b) = substring s a b"
  by (simp add: substring_def)

lemma py_loop_shift: "py_loop (p @ s) (length p + i) bs = py_loop s i bs"
proof (induction s i bs rule: py_loop.induct)
  case (1 s i bs)
  have sub: "substring (p @ s) (Suc (Suc (length p + i))) (length p + (i + 4))
      = substring s (Suc (Suc i)) (i + 4)"
    using substring_shift [of p s "i + 2" "i + 4"] by simp
  have nth1: "(p @ s) ! Suc (length p + i) = s ! Suc i"
    using nth_append_length_plus [of p s "i + 1"] by simp
  show ?case
    apply (subst py_loop.simps [of "p @ s" "length p + i" bs])
    apply (subst py_loop.simps [of s i bs])
    using 1 by (auto simp: Let_def sub nth1 add.assoc)
qed

lemma py_loop_drop: "i \<le> length s \<Longrightarrow> py_loop s i bs = bs @ py_loop (drop i s) 0 []"
proof -
  assume i: "i \<le> length s"
  have "py_loop (take i s @ drop i s) (length (take i s) + 0) bs = py_loop (drop i s) 0 bs"
    by (rule py_loop_shift)
  moreover have "length (take i s) + 0 = i" using i by simp
  ultimately have "py_loop s i bs = py_loop (drop i s) 0 bs" by (simp only: append_take_drop_id)
  also have "\<dots> = bs @ py_loop (drop i s) 0 []"
    using py_loop_append [of "drop i s" 0 bs "[]"] by simp
  finally show ?thesis .
qed

lemma py_head_plain:
  "c \<noteq> 0x5C \<Longrightarrow> py_loop (c # rest) 0 [] = unat c # py_loop rest 0 []"
  by (subst py_loop.simps) (simp add: py_loop_drop [of "Suc 0" "c # rest"])

lemma py_head_lone: "py_loop [0x5C] 0 [] = [92]"
  by (subst py_loop.simps) simp

lemma py_head_empty: "py_loop [] 0 [] = []"
  by (subst py_loop.simps) simp

lemma py_head_escape:
  "c \<noteq> 0x78 \<Longrightarrow> py_loop (0x5C # c # rest) 0 [] = escape_code c # py_loop rest 0 []"
  by (subst py_loop.simps) (simp add: py_loop_drop [of "Suc (Suc 0)" "0x5C # c # rest"])

lemma py_head_hex:
  "isHexDigit h1 \<Longrightarrow> isHexDigit h2 \<Longrightarrow>
   py_loop (0x5C # 0x78 # h1 # h2 # rest) 0 []
     = (16 * hexDigitValue h1 + hexDigitValue h2) # py_loop rest 0 []"
  by (subst py_loop.simps)
     (simp add: py_loop_drop [of 4 "0x5C # 0x78 # h1 # h2 # rest"] substring_def hex2Re_test_def
        parseInt16_def)

lemma py_head_badhex:
  "\<not> (\<exists>h1 h2 r. rest = h1 # h2 # r \<and> isHexDigit h1 \<and> isHexDigit h2) \<Longrightarrow>
   py_loop (0x5C # 0x78 # rest) 0 [] = 92 # 120 # py_loop rest 0 []"
proof -
  assume bad: "\<not> (\<exists>h1 h2 r. rest = h1 # h2 # r \<and> isHexDigit h1 \<and> isHexDigit h2)"
  have no: "\<not> (Suc 0 < length rest \<and> hex2Re_test (substring (0x5C # 0x78 # rest) (Suc (Suc 0)) 4))"
  proof (cases rest)
    case Nil then show ?thesis by simp
  next
    case (Cons h1 r1)
    show ?thesis
    proof (cases r1)
      case Nil with Cons show ?thesis by simp
    next
      case (Cons h2 r)
      with \<open>rest = h1 # r1\<close> bad have "\<not> (isHexDigit h1 \<and> isHexDigit h2)" by simp
      with Cons \<open>rest = h1 # r1\<close> show ?thesis
        by (auto simp: hex2Re_test_def substring_def)
    qed
  qed
  show ?thesis
    apply (subst py_loop.simps)
    using no by (auto simp add: py_loop_drop [of "Suc (Suc 0)" "0x5C # 0x78 # rest"])
qed

text \<open>
  Claim C5. The scan of the escaped byte-string recovery, read off at the front of the
  text still to be scanned (the numbers are those pushed; \<open>parsePythonBytes\<close> stores
  them in a \<open>Uint8Array\<close>): \<open>\xHH\<close> with two hexadecimal digits gives that value
  and goes on after the four characters; \<open>\x\<close> without two such digits gives 92 and
  120 and goes on after two characters only; \<open>\n \r \t \\ \" \' \0\<close> give 10, 13, 9,
  92, 34, 39, 0; any other escaped character gives its own code, the backslash dropped;
  a lone backslash at the end gives 92; any other character gives its code. No branch
  raises.
\<close>

theorem py_loop_escapes:
  "(isHexDigit h1 \<and> isHexDigit h2 \<longrightarrow>
      py_loop (0x5C # 0x78 # h1 # h2 # rest) 0 []
        = (16 * hexDigitValue h1 + hexDigitValue h2) # py_loop rest 0 [])
   \<and> (\<not> (\<exists>a b r. rest = a # b # r \<and> isHexDigit a \<and> isHexDigit b) \<longrightarrow>
      py_loop (0x5C # 0x78 # rest) 0 [] = 92 # 120 # py_loop rest 0 [])
   \<and> py_loop (0x5C # 0x6E # rest) 0 [] = 10 # py_loop rest 0 []
   \<and> py_loop (0x5C # 0x72 # rest) 0 [] = 13 # py_loop rest 0 []
   \<and> py_loop (0x5C # 0x74 # rest) 0 [] = 9 # py_loop rest 0 []
   \<and> py_loop (0x5C # 0x5C # rest) 0 [] = 92 # py_loop rest 0 []
   \<and> py_loop (0x5C # 0x22 # rest) 0 [] = 34 # py_loop rest 0 []
   \<and> py_loop (0x5C # 0x27 # rest) 0 [] = 39 # py_loop rest 0 []
   \<and> py_loop (0x5C # 0x30 # rest) 0 [] = 0 # py_loop rest 0 []
   \<and> (c \<notin> {0x78, 0x6E, 0x72, 0x74, 0x5C, 0x22, 0x27, 0x30} \<longrightarrow>
      py_loop (0x5C # c # rest) 0 [] = unat c # py_loop rest 0 [])
   \<and> py_loop [0x5C] 0 [] = [92]
   \<and> (c \<noteq> 0x5C \<longrightarrow> py_loop (c # rest) 0 [] = unat c # py_loop rest 0 [])
   \<and> py_loop [] 0 [] = []
   \<and> parsePythonBytes str = map of_nat (py_loop (strip_wrapper (trim str)) 0 [])"
proof -
  have esc: "\<And>c v. c \<noteq> 0x78 \<Longrightarrow> escape_code c = v \<Longrightarrow>
      py_loop (0x5C # c # rest) 0 [] = v # py_loop rest 0 []"
    using py_head_escape by blast
  have e1: "py_loop (0x5C # 0x6E # rest) 0 [] = 10 # py_loop rest 0 []"
    by (rule esc) (simp_all add: escape_code_def)
  have e2: "py_loop (0x5C # 0x72 # rest) 0 [] = 13 # py_loop rest 0 []"
    by (rule esc) (simp_all add: escape_code_def)
  have e3: "py_loop (0x5C # 0x74 # rest) 0 [] = 9 # py_loop rest 0 []"
    by (rule esc) (simp_all add: escape_code_def)
  have e4: "py_loop (0x5C # 0x5C # rest) 0 [] = 92 # py_loop rest 0 []"
    by (rule esc) (simp_all add: escape_code_def)
  have e5: "py_loop (0x5C # 0x22 # rest) 0 [] = 34 # py_loop rest 0 []"
    by (rule esc) (simp_all add: escape_code_def)
  have e6: "py_loop (0x5C # 0x27 # rest) 0 [] = 39 # py_loop rest 0 []"
    by (rule esc) (simp_all add: escape_code_def)
  have e7: "py_loop (0x5C # 0x30 # rest) 0 [] = 0 # py_loop rest 0 []"
    by (rule esc) (simp_all add: escape_code_def)
  have e8: "c \<notin> {0x78, 0x6E, 0x72, 0x74, 0x5C, 0x22, 0x27, 0x30} \<longrightarrow>
      py_loop (0x5C # c # rest) 0 [] = unat c # py_loop rest 0 []"
    by (auto intro!: esc simp: escape_code_def)
  have p: "parsePythonBytes str = map of_nat (py_loop (strip_wrapper (trim str)) 0 [])"
    by (simp add: parsePythonBytes_def)
  from e1 e2 e3 e4 e5 e6 e7 e8 p py_head_hex [of h1 h2 rest] py_head_badhex [of rest]
    py_head_lone py_head_plain [of c rest] py_head_empty
  show ?thesis by blast
qed

theorem py_loop_escapes_witness:
  "isHexDigit 0x38 \<and> isHexDigit 0x31
   \<and> py_loop [0x5C, 0x78, 0x38, 0x31, 0x5C] 0 [] = [129, 92]
   \<and> \<not> (\<exists>a b r. [0x5A :: jschar, 0x31] = a # b # r \<and> isHexDigit a \<and> isHexDigit b)
   \<and> py_loop [0x5C, 0x78, 0x5A, 0x31] 0 [] = [92, 120, 90, 49]
   \<and> (0x71 :: jschar) \<notin> {0x78, 0x6E, 0x72, 0x74, 0x5C, 0x22, 0x27, 0x30}
   \<and> py_loop [0x5C, 0x71] 0 [] = [113]"
proof -
  have h: "isHexDigit 0x38 \<and> isHexDigit 0x31" by (simp add: isHexDigit_def)
  have nh: "\<not> (\<exists>a b r. [0x5A :: jschar, 0x31] = a # b # r \<and> isHexDigit a \<and> isHexDigit b)"
    by (simp add: isHexDigit_def)
  have nq: "(0x71 :: jschar) \<notin> {0x78, 0x6E, 0x72, 0x74, 0x5C, 0x22, 0x27, 0x30}" by simp
  have a: "py_loop [0x5C, 0x78, 0x38, 0x31, 0x5C] 0 [] = [129, 92]"
    using h py_loop_escapes [of "0x38" "0x31" "[0x5C]" "0x5C" "[]"]
    by (simp add: hexDigitValue_def)
  have b: "py_loop [0x5C, 0x78, 0x5A, 0x31] 0 [] = [92, 120, 90, 49]"
    using nh py_loop_escapes [of "0x38" "0x31" "[0x5A, 0x31]" "0x5A" "[]"]
      py_loop_escapes [of "0x38" "0x31" "[0x31]" "0x5A" "[]"]
      py_loop_escapes [of "0x38" "0x31" "[]" "0x31" "[]"]
    by simp
  have c: "py_loop [0x5C, 0x71] 0 [] = [113]"
    using nq py_loop_escapes [of "0x38" "0x31" "[]" "0x71" "[]"] by simp
  from h nh nq a b c show ?thesis by blast
qed

section \<open>Properties of the format auto-detection\<close>

lemma str_includes_single: "str_includes s [c] \<longleftrightarrow> c \<in> set s"
  by (induction s) (auto simp: startsWith_def)

lemma base64Re_no_space: "base64Re_test s \<Longrightarrow> \<not> str_includes s (js '' '')"
  by (auto simp: base64Re_test_def js_def str_includes_single list_all_iff isBase64Char_def)

lemma hex_candidate_iff:
  "hex_candidate clean \<longleftrightarrow>
     hexClean clean \<noteq> [] \<and> even (length (hexClean clean)) \<and> list_all isHexDigit (hexClean clean)"
  by (auto simp: hex_candidate_def hexClean_def hexRe_test_def Let_def)

lemma base64_candidate_iff:
  "base64_candidate clean \<longleftrightarrow>
     length clean mod 4 = 0 \<and> clean \<noteq> [] \<and> list_all isBase64Char clean"
  using base64Re_no_space [of clean] by (auto simp: base64_candidate_def base64Re_test_def)

lemma python_candidate_not_hex:
  assumes "python_candidate clean"
  shows "\<not> hex_candidate clean"
proof -
  from assms obtain q rest where c: "clean = 0x62 # q # rest" and q: "q = 0x27 \<or> q = 0x22"
    by (cases clean; cases "tl clean")
       (auto simp: python_candidate_def startsWith_def b_squote_def b_dquote_def)
  have "replace_0x clean = clean"
    by (simp add: replace_0x_def startsWith_def js_def c)
  moreover have "\<not> isWhiteSpace q" "\<not> isHexDigit q"
    using q by (auto simp: isWhiteSpace_def isHexDigit_def)
  ultimately have "\<not> list_all isHexDigit (hexClean clean)"
    by (auto simp: hexClean_def remove_ws_def c list_all_iff)
  then show ?thesis by (simp add: hex_candidate_iff)
qed

lemma hex_candidate_parseHex: "hex_candidate clean \<Longrightarrow> \<exists>bs. parseHex clean = Inr bs"
  by (auto simp: hex_candidate_iff parseHex_def Let_def hexRe_test_def)

lemma autoDetect_step1:
  "python_candidate (trim input) \<Longrightarrow>
   autoDetectAndDecode input = Inr (parsePythonBytes (trim input), PYTHON)"
  by (simp add: autoDetectAndDecode_def autoDetect_trace_def attempt_def Let_def)

lemma autoDetect_step2:
  assumes "hex_candidate (trim input)"
  shows "\<exists>bs. parseHex (trim input) = Inr bs \<and> autoDetectAndDecode input = Inr (bs, HEX)"
proof -
  have n1: "\<not> python_candidate (trim input)"
    using assms python_candidate_not_hex by blast
  obtain bs where bs: "parseHex (trim input) = Inr bs"
    using assms hex_candidate_parseHex by blast
  have "autoDetectAndDecode input = Inr (bs, HEX)"
    using n1 assms bs
    by (simp add: autoDetectAndDecode_def autoDetect_trace_def attempt_def Let_def)
  with bs show ?thesis by blast
qed

lemma autoDetect_later:
  assumes "\<not> python_candidate (trim input)" and "\<not> hex_candidate (trim input)"
  shows "autoDetect_trace input =
    (if base64_candidate (trim input) then
       (case parseBase64 (trim input) of
          Inr bs \<Rightarrow> (Inr (bs, BASE64), [])
        | Inl e \<Rightarrow>
            (if fallback_candidate (trim input)
             then (Inr (parsePythonBytes (trim input), PYTHON), [''Base64: '' @ error_toString e])
             else (Inl (Error ''Could not auto-detect format. Please select one manually.''),
                   [''Base64: '' @ error_toString e])))
     else if fallback_candidate (trim input)
     then (Inr (parsePythonBytes (trim input), PYTHON), [])
     else (Inl (Error ''Could not auto-detect format. Please select one manually.''), []))"
  using assms
  by (auto simp: autoDetect_trace_def attempt_def Let_def split: sum.splits)

text \<open>
  Claim C4. The auto-detector takes the first candidate that succeeds, in the order:
  escaped byte-string when the trimmed text starts with \<open>b'\<close> or \<open>b"\<close>; hex when the
  text stripped of \<open>0x\<close> and white space is non-empty, of even length and all
  hexadecimal digits; base64 when the length is a multiple of 4 and every character is
  in the base64 set; escaped byte-string again when the text contains \<open>\x\<close>. A text
  that passes both the hex and the base64 guard, such as \<open>8000\<close>, resolves to hex.
\<close>

theorem autoDetect_priority:
  "(python_candidate (trim input) \<longrightarrow>
      autoDetectAndDecode input = Inr (parsePythonBytes (trim input), PYTHON))
   \<and> (\<not> python_candidate (trim input) \<and> hex_candidate (trim input) \<longrightarrow>
      (\<exists>bs. parseHex (trim input) = Inr bs \<and> autoDetectAndDecode input = Inr (bs, HEX)))
   \<and> (\<not> python_candidate (trim input) \<and> \<not> hex_candidate (trim input)
        \<and> base64_candidate (trim input) \<and> parseBase64 (trim input) = Inr bs \<longrightarrow>
      autoDetectAndDecode input = Inr (bs, BASE64))
   \<and> (\<not> python_candidate (trim input) \<and> \<not> hex_candidate (trim input)
        \<and> \<not> (base64_candidate (trim input) \<and> \<not> isl (parseBase64 (trim input)))
        \<and> fallback_candidate (trim input) \<longrightarrow>
      autoDetectAndDecode input = Inr (parsePythonBytes (trim input), PYTHON))
   \<and> (hex_candidate (trim input) \<longleftrightarrow>
        hexClean (trim input) \<noteq> [] \<and> even (length (hexClean (trim input)))
        \<and> list_all isHexDigit (hexClean (trim input)))
   \<and> (base64_candidate (trim input) \<longleftrightarrow>
        length (trim input) mod 4 = 0 \<and> trim input \<noteq> [] \<and> list_all isBase64Char (trim input))
   \<and> (hex_candidate (trim input) \<and> base64_candidate (trim input) \<longrightarrow>
        (\<exists>bs. autoDetectAndDecode input = Inr (bs, HEX)))
   \<and> hex_candidate (trim (js ''8000'')) \<and> base64_candidate (trim (js ''8000''))
   \<and> autoDetectAndDecode (js ''8000'') = Inr ([0x80, 0x00], HEX)"
proof -
  have s3: "\<not> python_candidate (trim input) \<and> \<not> hex_candidate (trim input)
        \<and> base64_candidate (trim input) \<and> parseBase64 (trim input) = Inr bs \<longrightarrow>
      autoDetectAndDecode input = Inr (bs, BASE64)"
    by (simp add: autoDetectAndDecode_def autoDetect_later)
  have s4: "\<not> python_candidate (trim input) \<and> \<not> hex_candidate (trim input)
        \<and> \<not> (base64_candidate (trim input) \<and> \<not> isl (parseBase64 (trim input)))
        \<and> fallback_candidate (trim input) \<longrightarrow>
      autoDetectAndDecode input = Inr (parsePythonBytes (trim input), PYTHON)"
    by (auto simp: autoDetectAndDecode_def autoDetect_later split: sum.splits)
  have ex1: "hex_candidate (trim (js ''8000''))" by code_simp
  have ex2: "base64_candidate (trim (js ''8000''))" by code_simp
  have ex3: "autoDetectAndDecode (js ''8000'') = Inr ([0x80, 0x00], HEX)" by code_simp
  from s3 s4 ex1 ex2 ex3 autoDetect_step1 [of input] autoDetect_step2 [of input]
    hex_candidate_iff [of "trim input"] base64_candidate_iff [of "trim input"]
  show ?thesis by blast
qed

theorem autoDetect_priority_witness:
  "python_candidate (trim [0x62, 0x27, 0x5C, 0x78, 0x38, 0x31, 0x27])
   \<and> autoDetectAndDecode [0x62, 0x27, 0x5C, 0x78, 0x38, 0x31, 0x27] = Inr ([0x81], PYTHON)
   \<and> fallback_candidate (trim [0x5C, 0x78, 0x38, 0x31, 0x21])
   \<and> autoDetectAndDecode [0x5C, 0x78, 0x38, 0x31, 0x21] = Inr ([0x81, 0x21], PYTHON)
   \<and> hex_candidate (trim (js '' 0x8000 ''))
   \<and> \<not> python_candidate (trim (js '' 0x8000 ''))
   \<and> autoDetectAndDecode (js '' 0x8000 '') = Inr ([0x80, 0x00], HEX)
   \<and> \<not> hex_candidate (trim (js ''gaNrZXmldmFsdWU='')) \<and> base64_candidate (trim (js ''gaNrZXmldmFsdWU=''))
   \<and> autoDetectAndDecode (js ''gaNrZXmldmFsdWU='')
       = Inr ([0x81, 0xa3, 0x6b, 0x65, 0x79, 0xa5, 0x76, 0x61, 0x6c, 0x75, 0x65], BASE64)"
proof -
  have h: "hex_candidate (trim (js '' 0x8000 ''))" by code_simp
  have np: "\<not> python_candidate (trim (js '' 0x8000 ''))" by code_simp
  have ph: "parseHex (trim (js '' 0x8000 '')) = Inr [0x80, 0x00]" by code_simp
  have "\<exists>bs. parseHex (trim (js '' 0x8000 '')) = Inr bs
      \<and> autoDetectAndDecode (js '' 0x8000 '') = Inr (bs, HEX)"
    using h np autoDetect_priority [of "js '' 0x8000 ''" "[]"] by blast
  then have a: "autoDetectAndDecode (js '' 0x8000 '') = Inr ([0x80, 0x00], HEX)"
    by (auto simp only: ph sum.inject)
  have np2: "\<not> python_candidate (trim (js ''gaNrZXmldmFsdWU=''))" by code_simp
  have nh2: "\<not> hex_candidate (trim (js ''gaNrZXmldmFsdWU=''))" by code_simp
  have b2: "base64_candidate (trim (js ''gaNrZXmldmFsdWU=''))" by code_simp
  have pb: "parseBase64 (trim (js ''gaNrZXmldmFsdWU=''))
      = Inr [0x81, 0xa3, 0x6b, 0x65, 0x79, 0xa5, 0x76, 0x61, 0x6c, 0x75, 0x65]" by code_simp
  have b: "autoDetectAndDecode (js ''gaNrZXmldmFsdWU='')
       = Inr ([0x81, 0xa3, 0x6b, 0x65, 0x79, 0xa5, 0x76, 0x61, 0x6c, 0x75, 0x65], BASE64)"
    using np2 nh2 b2 pb
      autoDetect_priority [of "js ''gaNrZXmldmFsdWU=''"
        "[0x81, 0xa3, 0x6b, 0x65, 0x79, 0xa5, 0x76, 0x61, 0x6c, 0x75, 0x65]"]
    by blast
  have p1: "python_candidate (trim [0x62, 0x27, 0x5C, 0x78, 0x38, 0x31, 0x27])" by code_simp
  have pp: "parsePythonBytes (trim [0x62, 0x27, 0x5C, 0x78, 0x38, 0x31, 0x27]) = [0x81]"
    by code_simp
  have "autoDetectAndDecode [0x62, 0x27, 0x5C, 0x78, 0x38, 0x31, 0x27]
      = Inr (parsePythonBytes (trim [0x62, 0x27, 0x5C, 0x78, 0x38, 0x31, 0x27]), PYTHON)"
    using p1 autoDetect_priority [of "[0x62, 0x27, 0x5C, 0x78, 0x38, 0x31, 0x27]" "[]"]
    by blast
  then have c: "autoDetectAndDecode [0x62, 0x27, 0x5C, 0x78, 0x38, 0x31, 0x27] = Inr ([0x81], PYTHON)"
    by (simp only: pp)
  have f1: "\<not> python_candidate (trim [0x5C, 0x78, 0x38, 0x31, 0x21])" by code_simp
  have f2: "\<not> hex_candidate (trim [0x5C, 0x78, 0x38, 0x31, 0x21])" by code_simp
  have f3: "\<not> base64_candidate (trim [0x5C, 0x78, 0x38, 0x31, 0x21])" by code_simp
  have f4: "fallback_candidate (trim [0x5C, 0x78, 0x38, 0x31, 0x21])" by code_simp
  have fp: "parsePythonBytes (trim [0x5C, 0x78, 0x38, 0x31, 0x21]) = [0x81, 0x21]" by code_simp
  have "autoDetectAndDecode [0x5C, 0x78, 0x38, 0x31, 0x21]
      = Inr (parsePythonBytes (trim [0x5C, 0x78, 0x38, 0x31, 0x21]), PYTHON)"
    using f1 f2 f3 f4 autoDetect_priority [of "[0x5C, 0x78, 0x38, 0x31, 0x21]" "[]"]
    by blast
  then have d: "autoDetectAndDecode [0x5C, 0x78, 0x38, 0x31, 0x21] = Inr ([0x81, 0x21], PYTHON)"
    by (simp only: fp)
  from h np a nh2 b2 b p1 c f4 d show ?thesis by blast
qed

text \<open>
  Claim C8, at the input \<open>====\<close>. The base64 candidate is tried and fails, and its
  message is pushed to \<open>errors\<close>; the error thrown at the end is the fixed text and
  carries nothing of \<open>errors\<close>.
\<close>

theorem autoDetect_drops_collected_errors:
  "autoDetect_trace (js ''===='') =
     (Inl (Error ''Could not auto-detect format. Please select one manually.''),
      [''Base64: Error: Invalid Base64 string''])
   \<and> autoDetectAndDecode (js ''===='') =
     Inl (Error ''Could not auto-detect format. Please select one manually.'')"
  by code_simp

section \<open>Properties of the decoder\<close>

subsection \<open>The dispatch and the readers\<close>

lemma parse_Suc_view:
  "parse (Suc f) buf off key ctr =
     (if off \<ge> length buf then Some (Inl (Error ''Unexpected end of input''))
      else if container_tag (buf ! off) then
        (case container_header buf (off + 1) (buf ! off) of
           Inl e \<Rightarrow> Some (Inl e)
         | Inr (isMap, raw, len, off2) \<Rightarrow>
             container (fst (generateId ctr)) key (if isMap then MAP else ARRAY) raw len
               (children_loop isMap (parse f buf) len [] off2 (snd (generateId ctr))))
      else Some (scalar_step buf (off + 1) (buf ! off) (fst (generateId ctr)) key (snd (generateId ctr))))"
  by (auto simp: parse.simps Let_def container_tag_def container_header_def scalar_step_def children_loop_def
      bindE_def split_def word_le_nat_alt split: sum.splits)

lemma view_bytes_Inr: "view_bytes buf off w = Inr bs \<Longrightarrow> off + w \<le> length buf \<and> bs = take w (drop off buf)"
  by (auto simp: view_bytes_def split: if_splits)

lemma getUint_Inr: "getUint w buf off = Inr v \<Longrightarrow> off + w \<le> length buf \<and> v = be_nat (take w (drop off buf))"
  by (auto simp: getUint_def dest: view_bytes_Inr split: sum.splits)

lemma getInt_Inr: "getInt w buf off = Inr v \<Longrightarrow> off + w \<le> length buf"
  by (auto simp: getInt_def dest: view_bytes_Inr split: sum.splits)

lemma getFloat32_Inr: "getFloat32 buf off = Inr v \<Longrightarrow> off + 4 \<le> length buf"
  by (auto simp: getFloat32_def dest: view_bytes_Inr split: sum.splits)

lemma getFloat64_Inr: "getFloat64 buf off = Inr v \<Longrightarrow> off + 8 \<le> length buf"
  by (auto simp: getFloat64_def dest: view_bytes_Inr split: sum.splits)

lemma readBin_Inr: "readBin buf off len = Inr (d, off') \<Longrightarrow> off' = off + len \<and> off' \<le> length buf \<and> d = take len (drop off buf)"
  by (auto simp: readBin_def Let_def split: if_splits)

lemma readString_Inr: "readString buf off len = Inr (s, off') \<Longrightarrow> off' = off + len \<and> off' \<le> length buf"
  by (auto simp: readString_def Let_def split: if_splits)

lemma bindE_Inr: "bindE r f = Inr y \<longleftrightarrow> (\<exists>x. r = Inr x \<and> f x = Inr y)"
  by (auto simp: bindE_def split: sum.splits)

lemma readExt_Inr:
  "readExt buf off ctr len lab = Inr (n, off', ctr') \<Longrightarrow>
     off' = off + 1 + len \<and> off' \<le> length buf \<and> ctr' = ctr + 1 \<and>
     (\<exists>d ty. n = Node (fst (generateId ctr)) KUndefined (VBytes d) EXTENSION (Some lab) None (Some len) (Some ty))"
  by (auto simp: readExt_def bindE_Inr getInt8_def generateId_def dest!: readBin_Inr getInt_Inr)

lemma scalar_step_Inr:
  assumes "scalar_step buf off1 byte nid key ctr1 = Inr (n, off', ctr')" "off1 \<le> length buf"
  shows "off1 \<le> off'" "off' \<le> length buf" "children n = None"
    "(ctr' = ctr1 \<and> node_id n = nid \<and> node_key n = key \<and> node_type n \<noteq> EXTENSION) \<or>
     (ctr' = ctr1 + 1 \<and> node_id n = fst (generateId ctr1) \<and> node_key n = KUndefined \<and> node_type n = EXTENSION)"
  using assms
  by (auto simp: scalar_step_def parse_switch_def leaf_def bindE_Inr bin_case_def str_case_def
        uint_case_def int_case_def ext_case_def getUint8_def getUint16_def getUint32_def
        getBigUint64_def getInt8_def getInt16_def getInt32_def getBigInt64_def
      dest!: readExt_Inr readBin_Inr readString_Inr getUint_Inr getInt_Inr getFloat32_Inr getFloat64_Inr
      split: if_splits)

lemma stable_Inr [simp]: "stable (Inr x)"
  by (simp add: stable_def)

lemma stable_Inl [simp]: "stable (Inl e) \<longleftrightarrow> \<not> truncation_error e"
  by (simp add: stable_def)

lemma view_bytes_ext:
  "stable (view_bytes buf off w) \<Longrightarrow> view_bytes (buf @ ex) off w = view_bytes buf off w"
  by (auto simp: view_bytes_def truncation_error_def)

lemma getUint_ext: "stable (getUint w buf off) \<Longrightarrow> getUint w (buf @ ex) off = getUint w buf off"
  by (auto simp: getUint_def view_bytes_def truncation_error_def)

lemma getInt_ext: "stable (getInt w buf off) \<Longrightarrow> getInt w (buf @ ex) off = getInt w buf off"
  by (auto simp: getInt_def view_bytes_def truncation_error_def)

lemma getFloat32_ext: "stable (getFloat32 buf off) \<Longrightarrow> getFloat32 (buf @ ex) off = getFloat32 buf off"
  by (auto simp: getFloat32_def view_bytes_def truncation_error_def)

lemma getFloat64_ext: "stable (getFloat64 buf off) \<Longrightarrow> getFloat64 (buf @ ex) off = getFloat64 buf off"
  by (auto simp: getFloat64_def view_bytes_def truncation_error_def)

lemma readBin_ext: "stable (readBin buf off len) \<Longrightarrow> readBin (buf @ ex) off len = readBin buf off len"
  by (auto simp: readBin_def Let_def truncation_error_def)

lemma readString_ext:
  "stable (readString buf off len) \<Longrightarrow> readString (buf @ ex) off len = readString buf off len"
  by (auto simp: readString_def Let_def truncation_error_def)

lemma bindE_ext:
  assumes "stable (bindE r f)"
    and "stable r \<Longrightarrow> r' = r"
    and "\<And>x. r = Inr x \<Longrightarrow> stable (f x) \<Longrightarrow> f' x = f x"
  shows "bindE r' f' = bindE r f"
  using assms by (cases r) (auto simp: bindE_def)

lemma readExt_ext:
  "stable (readExt buf off ctr len lab) \<Longrightarrow> readExt (buf @ ex) off ctr len lab = readExt buf off ctr len lab"
  unfolding readExt_def getInt8_def
  by (rule bindE_ext, assumption, erule getInt_ext, rule bindE_ext, assumption, erule readBin_ext)
     simp

lemma bin_case_ext:
  "stable (bin_case (getUint k) w label buf off nid key ctr) \<Longrightarrow>
   bin_case (getUint k) w label (buf @ ex) off nid key ctr = bin_case (getUint k) w label buf off nid key ctr"
  unfolding bin_case_def
  by (rule bindE_ext, assumption, erule getUint_ext, rule bindE_ext, assumption, erule readBin_ext)
     simp

lemma str_case_ext:
  "stable (str_case (getUint k) w label buf off nid key ctr) \<Longrightarrow>
   str_case (getUint k) w label (buf @ ex) off nid key ctr = str_case (getUint k) w label buf off nid key ctr"
  unfolding str_case_def
  by (rule bindE_ext, assumption, erule getUint_ext, rule bindE_ext, assumption, erule readString_ext)
     simp

lemma uint_case_ext:
  "stable (uint_case (getUint k) w label mk buf off nid key ctr) \<Longrightarrow>
   uint_case (getUint k) w label mk (buf @ ex) off nid key ctr = uint_case (getUint k) w label mk buf off nid key ctr"
  unfolding uint_case_def
  by (rule bindE_ext, assumption, erule getUint_ext) simp

lemma int_case_ext:
  "stable (int_case (getInt k) w label mk buf off nid key ctr) \<Longrightarrow>
   int_case (getInt k) w label mk (buf @ ex) off nid key ctr = int_case (getInt k) w label mk buf off nid key ctr"
  unfolding int_case_def
  by (rule bindE_ext, assumption, erule getInt_ext) simp

lemma ext_case_ext:
  "stable (ext_case (getUint k) w label buf off ctr) \<Longrightarrow>
   ext_case (getUint k) w label (buf @ ex) off ctr = ext_case (getUint k) w label buf off ctr"
  unfolding ext_case_def
  by (rule bindE_ext, assumption, erule getUint_ext, erule readExt_ext)

lemma float32_ext:
  "stable (bindE (getFloat32 buf off) f) \<Longrightarrow> bindE (getFloat32 (buf @ ex) off) f = bindE (getFloat32 buf off) f"
  by (rule bindE_ext, assumption, erule getFloat32_ext) simp

lemma float64_ext:
  "stable (bindE (getFloat64 buf off) f) \<Longrightarrow> bindE (getFloat64 (buf @ ex) off) f = bindE (getFloat64 buf off) f"
  by (rule bindE_ext, assumption, erule getFloat64_ext) simp

lemmas family_ext = bin_case_ext str_case_ext uint_case_ext int_case_ext ext_case_ext readExt_ext
  float32_ext float64_ext

lemma parse_switch_ext:
  "stable (parse_switch buf off byte nid key ctr) \<Longrightarrow>
   parse_switch (buf @ ex) off byte nid key ctr = parse_switch buf off byte nid key ctr"
  unfolding parse_switch_def getUint8_def getUint16_def getUint32_def getBigUint64_def
    getInt8_def getInt16_def getInt32_def getBigInt64_def
  by (auto simp: family_ext split: if_splits)

lemma scalar_step_ext:
  "stable (scalar_step buf off byte nid key ctr) \<Longrightarrow>
   scalar_step (buf @ ex) off byte nid key ctr = scalar_step buf off byte nid key ctr"
  unfolding scalar_step_def
  by (auto simp: parse_switch_ext split: if_splits intro!: bindE_ext readString_ext)

lemma container_header_ext:
  "stable (container_header buf off byte) \<Longrightarrow>
   container_header (buf @ ex) off byte = container_header buf off byte"
  unfolding container_header_def getUint16_def getUint32_def
  by (auto split: if_splits intro!: bindE_ext getUint_ext)

subsection \<open>Offsets and counters only grow\<close>

lemma array_loop_bounds:
  assumes p: "\<And>q k c v q' c'. p q k c = Some (Inr (v, q', c')) \<Longrightarrow> q < q' \<and> q' \<le> L \<and> c < c'"
  shows "array_loop p n acc off ctr = Some (Inr (cs, off', ctr')) \<Longrightarrow> off \<le> L \<Longrightarrow>
         off \<le> off' \<and> off' \<le> L \<and> ctr \<le> ctr'"
proof (induction n arbitrary: acc off ctr)
  case 0
  then show ?case by simp
next
  case (Suc n)
  from Suc.prems(1) obtain v q1 c1 where
    1: "p off KUndefined ctr = Some (Inr (v, q1, c1))"
    and 2: "array_loop p n (acc @ [v]) q1 c1 = Some (Inr (cs, off', ctr'))"
    by (auto split: option.splits sum.splits)
  from p [OF 1] have "off < q1" "q1 \<le> L" "ctr < c1" by auto
  moreover from Suc.IH [OF 2 \<open>q1 \<le> L\<close>] have "q1 \<le> off'" "off' \<le> L" "c1 \<le> ctr'" by auto
  ultimately show ?case by simp
qed

lemma map_loop_bounds:
  assumes p: "\<And>q k c v q' c'. p q k c = Some (Inr (v, q', c')) \<Longrightarrow> q < q' \<and> q' \<le> L \<and> c < c'"
  shows "map_loop p n acc off ctr = Some (Inr (cs, off', ctr')) \<Longrightarrow> off \<le> L \<Longrightarrow>
         off \<le> off' \<and> off' \<le> L \<and> ctr \<le> ctr'"
proof (induction n arbitrary: acc off ctr)
  case 0
  then show ?case by simp
next
  case (Suc n)
  from Suc.prems(1) obtain k q1 c1 v q2 c2 where
    1: "p off KUndefined ctr = Some (Inr (k, q1, c1))"
    and 2: "p q1 (getKey k) c1 = Some (Inr (v, q2, c2))"
    and 3: "map_loop p n (acc @ [v]) q2 c2 = Some (Inr (cs, off', ctr'))"
    by (auto split: option.splits sum.splits)
  from p [OF 1] p [OF 2] have a: "off < q1" "q1 < q2" "q2 \<le> L" "ctr < c1" "c1 < c2" by auto
  from Suc.IH [OF 3 \<open>q2 \<le> L\<close>] have "q2 \<le> off'" "off' \<le> L" "c2 \<le> ctr'" by auto
  with a show ?case by simp
qed

lemma children_loop_bounds:
  assumes p: "\<And>q k c v q' c'. p q k c = Some (Inr (v, q', c')) \<Longrightarrow> q < q' \<and> q' \<le> L \<and> c < c'"
    and "children_loop isMap p n acc off ctr = Some (Inr (cs, off', ctr'))" "off \<le> L"
  shows "off \<le> off' \<and> off' \<le> L \<and> ctr \<le> ctr'"
  using assms(2,3) array_loop_bounds [of p L n acc off ctr cs off' ctr', OF p]
    map_loop_bounds [of p L n acc off ctr cs off' ctr', OF p]
  by (auto simp: children_loop_def split: if_splits)

lemma container_Inr:
  "container nid key ty raw len r = Some (Inr (n, off', ctr')) \<longleftrightarrow>
   (\<exists>cs. r = Some (Inr (cs, off', ctr')) \<and> n = Node nid key VNull ty (Some raw) (Some cs) (Some len) None)"
  by (auto simp: container_def split: option.splits sum.splits)

lemma container_header_Inr:
  "container_header buf off1 byte = Inr (isMap, raw, len, off2) \<Longrightarrow> off1 \<le> length buf \<Longrightarrow>
   off1 \<le> off2 \<and> off2 \<le> length buf"
  by (auto simp: container_header_def bindE_Inr getUint16_def getUint32_def
      dest!: getUint_Inr split: if_splits)

lemma generateId_snd [simp]: "snd (generateId c) = Suc c"
  by (simp add: generateId_def)

lemma parse_bounds:
  "parse f buf off key ctr = Some (Inr (n, off', ctr')) \<Longrightarrow>
   off < off' \<and> off' \<le> length buf \<and> ctr < ctr'"
proof (induction f arbitrary: off key ctr n off' ctr')
  case 0
  then show ?case by (simp add: parse.simps)
next
  case (Suc f)
  from Suc.prems have lt: "off < length buf"
    by (auto simp: parse_Suc_view split: if_splits)
  show ?case
  proof (cases "container_tag (buf ! off)")
    case True
    with Suc.prems lt obtain isMap raw len off2 cs where
      h: "container_header buf (off + 1) (buf ! off) = Inr (isMap, raw, len, off2)"
      and l: "children_loop isMap (parse f buf) len [] off2 (Suc ctr) = Some (Inr (cs, off', ctr'))"
      by (auto simp: parse_Suc_view container_Inr split: sum.splits)
    from container_header_Inr [OF h] lt have q2: "off + 1 \<le> off2" "off2 \<le> length buf" by auto
    from children_loop_bounds [of "parse f buf" "length buf", OF _ l q2(2)] Suc.IH
    have "off2 \<le> off'" "off' \<le> length buf" "Suc ctr \<le> ctr'" by blast+
    with q2 show ?thesis by simp
  next
    case False
    with Suc.prems lt have
      s: "scalar_step buf (off + 1) (buf ! off) (fst (generateId ctr)) key (Suc ctr) = Inr (n, off', ctr')"
      by (auto simp: parse_Suc_view)
    from scalar_step_Inr [OF s] lt show ?thesis by auto
  qed
qed

subsection \<open>The parser returns\<close>

lemma array_loop_total:
  assumes t: "\<And>q k c. off \<le> q \<Longrightarrow> p q k c \<noteq> None"
    and g: "\<And>q k c v q' c'. p q k c = Some (Inr (v, q', c')) \<Longrightarrow> q \<le> q'"
  shows "array_loop p n acc off ctr \<noteq> None"
  using t
proof (induction n arbitrary: acc off ctr)
  case 0
  then show ?case by simp
next
  case (Suc n)
  show ?case
  proof (cases "p off KUndefined ctr")
    case None
    with Suc.prems [of off KUndefined ctr] show ?thesis by simp
  next
    case (Some r)
    show ?thesis
    proof (cases r)
      case (Inl e)
      with Some show ?thesis by simp
    next
      case (Inr x)
      obtain v q1 c1 where x: "x = (v, q1, c1)" by (cases x)
      from g Some Inr x have "off \<le> q1" by blast
      then have "array_loop p n (acc @ [v]) q1 c1 \<noteq> None"
        by (intro Suc.IH Suc.prems) simp
      with Some Inr x show ?thesis by simp
    qed
  qed
qed

lemma map_loop_total:
  assumes t: "\<And>q k c. off \<le> q \<Longrightarrow> p q k c \<noteq> None"
    and g: "\<And>q k c v q' c'. p q k c = Some (Inr (v, q', c')) \<Longrightarrow> q \<le> q'"
  shows "map_loop p n acc off ctr \<noteq> None"
  using t
proof (induction n arbitrary: acc off ctr)
  case 0
  then show ?case by simp
next
  case (Suc n)
  show ?case
  proof (cases "p off KUndefined ctr")
    case None
    with Suc.prems [of off KUndefined ctr] show ?thesis by simp
  next
    case (Some r)
    show ?thesis
    proof (cases r)
      case (Inl e)
      with Some show ?thesis by simp
    next
      case (Inr x)
      obtain k q1 c1 where x: "x = (k, q1, c1)" by (cases x)
      from g Some Inr x have q1: "off \<le> q1" by blast
      show ?thesis
      proof (cases "p q1 (getKey k) c1")
        case None
        with Suc.prems [of q1 "getKey k" c1] q1 show ?thesis by simp
      next
        case (Some r2)
        note S2 = Some
        show ?thesis
        proof (cases r2)
          case (Inl e)
          with \<open>p off KUndefined ctr = Some r\<close> \<open>r = Inr x\<close> x S2 show ?thesis by simp
        next
          case (Inr y)
          obtain v q2 c2 where y: "y = (v, q2, c2)" by (cases y)
          from g S2 Inr y have "q1 \<le> q2" by blast
          with q1 have "map_loop p n (acc @ [v]) q2 c2 \<noteq> None"
            by (intro Suc.IH Suc.prems) simp
          with \<open>p off KUndefined ctr = Some r\<close> \<open>r = Inr x\<close> x S2 Inr y show ?thesis by simp
        qed
      qed
    qed
  qed
qed

lemma container_None: "container nid key ty raw len r = None \<longleftrightarrow> r = None"
  by (auto simp: container_def split: option.splits sum.splits)

lemma parse_total: "length buf - off < f \<Longrightarrow> parse f buf off key ctr \<noteq> None"
proof (induction f arbitrary: off key ctr)
  case 0
  then show ?case by (simp add: parse.simps)
next
  case (Suc f)
  show ?case
  proof (cases "off < length buf \<and> container_tag (buf ! off)")
    case False
    then show ?thesis by (auto simp: parse_Suc_view)
  next
    case True
    show ?thesis
    proof (cases "container_header buf (off + 1) (buf ! off)")
      case (Inl e)
      with True show ?thesis by (simp add: parse_Suc_view)
    next
      case (Inr x)
      obtain isMap raw len off2 where x: "x = (isMap, raw, len, off2)" by (cases x)
      from container_header_Inr [OF Inr [unfolded x]] True have q2: "off + 1 \<le> off2" by simp
      have t: "\<And>q k c. off2 \<le> q \<Longrightarrow> parse f buf q k c \<noteq> None"
        using Suc.prems q2 True by (intro Suc.IH) auto
      have g: "\<And>q k c v q' c'. parse f buf q k c = Some (Inr (v, q', c')) \<Longrightarrow> q \<le> q'"
        using parse_bounds by fastforce
      have "children_loop isMap (parse f buf) len [] off2 (Suc ctr) \<noteq> None"
        using array_loop_total [of off2 "parse f buf", OF t g]
          map_loop_total [of off2 "parse f buf", OF t g]
        by (simp add: children_loop_def)
      with True Inr x show ?thesis by (simp add: parse_Suc_view container_None)
    qed
  qed
qed

subsection \<open>Loops over two parsers that agree\<close>

lemma returned_simps [simp]:
  "returned okE None = False"
  "returned okE (Some (Inl e)) = okE e"
  "returned okE (Some (Inr x)) = True"
  by (simp_all add: returned_def)

lemma array_loop_agree:
  assumes a: "\<And>q k c. returned okE (p q k c) \<Longrightarrow> p' q k c = p q k c"
  shows "returned okE (array_loop p n acc off ctr) \<Longrightarrow>
         array_loop p' n acc off ctr = array_loop p n acc off ctr"
proof (induction n arbitrary: acc off ctr)
  case 0
  show ?case by simp
next
  case (Suc n)
  from Suc.prems have r: "returned okE (p off KUndefined ctr)"
    by (auto split: option.splits sum.splits)
  note e = a [OF r]
  show ?case
  proof (cases "p off KUndefined ctr")
    case None
    with r show ?thesis by simp
  next
    case (Some x)
    show ?thesis
    proof (cases x)
      case (Inl err)
      with Some e show ?thesis by simp
    next
      case (Inr y)
      obtain v q1 c1 where y: "y = (v, q1, c1)" by (cases y)
      from Suc.prems Some Inr y have "returned okE (array_loop p n (acc @ [v]) q1 c1)" by simp
      from Suc.IH [OF this] Some Inr y e show ?thesis by simp
    qed
  qed
qed

lemma map_loop_agree:
  assumes a: "\<And>q k c. returned okE (p q k c) \<Longrightarrow> p' q k c = p q k c"
  shows "returned okE (map_loop p n acc off ctr) \<Longrightarrow>
         map_loop p' n acc off ctr = map_loop p n acc off ctr"
proof (induction n arbitrary: acc off ctr)
  case 0
  show ?case by simp
next
  case (Suc n)
  from Suc.prems have r: "returned okE (p off KUndefined ctr)"
    by (auto split: option.splits sum.splits)
  note e = a [OF r]
  show ?case
  proof (cases "p off KUndefined ctr")
    case None
    with r show ?thesis by simp
  next
    case (Some x)
    show ?thesis
    proof (cases x)
      case (Inl err)
      with Some e show ?thesis by simp
    next
      case (Inr y)
      obtain k q1 c1 where y: "y = (k, q1, c1)" by (cases y)
      from Suc.prems Some Inr y have r2: "returned okE (p q1 (getKey k) c1)"
        by (auto split: option.splits sum.splits)
      note e2 = a [OF r2]
      show ?thesis
      proof (cases "p q1 (getKey k) c1")
        case None
        with r2 show ?thesis by simp
      next
        case (Some x2)
        note S2 = Some
        show ?thesis
        proof (cases x2)
          case (Inl err)
          with \<open>p off KUndefined ctr = Some x\<close> \<open>x = Inr y\<close> y S2 e e2 show ?thesis by simp
        next
          case (Inr z)
          obtain v q2 c2 where z: "z = (v, q2, c2)" by (cases z)
          from Suc.prems \<open>p off KUndefined ctr = Some x\<close> \<open>x = Inr y\<close> y S2 Inr z
          have "returned okE (map_loop p n (acc @ [v]) q2 c2)" by simp
          from Suc.IH [OF this] \<open>p off KUndefined ctr = Some x\<close> \<open>x = Inr y\<close> y S2 Inr z e e2
          show ?thesis by simp
        qed
      qed
    qed
  qed
qed

lemma children_loop_agree:
  assumes "\<And>q k c. returned okE (p q k c) \<Longrightarrow> p' q k c = p q k c"
    and "returned okE (children_loop isMap p n acc off ctr)"
  shows "children_loop isMap p' n acc off ctr = children_loop isMap p n acc off ctr"
  using assms array_loop_agree [of okE p p' n acc off ctr] map_loop_agree [of okE p p' n acc off ctr]
  by (cases isMap) (simp_all add: children_loop_def)

lemma returned_container:
  "returned okE (container nid key ty raw len r) \<longleftrightarrow> returned okE r"
  by (auto simp: container_def returned_def split: option.splits sum.splits)

subsection \<open>More depth does not change a result\<close>

lemma parse_fuel_Suc:
  "parse f buf off key ctr \<noteq> None \<Longrightarrow> parse (Suc f) buf off key ctr = parse f buf off key ctr"
proof (induction f arbitrary: off key ctr)
  case 0
  then show ?case by (simp add: parse.simps)
next
  case (Suc f)
  have ag: "\<And>q k c. returned (\<lambda>e. True) (parse f buf q k c) \<Longrightarrow>
      parse (Suc f) buf q k c = parse f buf q k c"
    using Suc.IH by (auto simp: returned_def split: option.splits)
  show ?case
  proof (cases "off < length buf \<and> container_tag (buf ! off)")
    case False
    then show ?thesis by (auto simp: parse_Suc_view)
  next
    case True
    show ?thesis
    proof (cases "container_header buf (off + 1) (buf ! off)")
      case (Inl e)
      with True show ?thesis by (simp add: parse_Suc_view)
    next
      case (Inr x)
      obtain isMap raw len off2 where x: "x = (isMap, raw, len, off2)" by (cases x)
      from Suc.prems True Inr x
      have "returned (\<lambda>e. True) (children_loop isMap (parse f buf) len [] off2 (Suc ctr))"
        by (auto simp: parse_Suc_view [of f] container_def returned_def split: option.splits sum.splits)
      from children_loop_agree [of "\<lambda>e. True" "parse f buf" "parse (Suc f) buf", OF ag this]
      show ?thesis using True Inr x by (simp add: parse_Suc_view)
    qed
  qed
qed

lemma parse_fuel_add:
  "parse f buf off key ctr \<noteq> None \<Longrightarrow> parse (f + d) buf off key ctr = parse f buf off key ctr"
proof (induction d)
  case 0
  show ?case by simp
next
  case (Suc d)
  then have "parse (f + d) buf off key ctr \<noteq> None" by simp
  from parse_fuel_Suc [OF this] Suc show ?case by simp
qed

lemma parse_fuel_mono:
  "parse f buf off key ctr \<noteq> None \<Longrightarrow> f \<le> f' \<Longrightarrow>
   parse f' buf off key ctr = parse f buf off key ctr"
  using parse_fuel_add [of f buf off key ctr "f' - f"] by simp

subsection \<open>Bytes appended to the buffer do not change a stable result\<close>

lemma stable_iff_returned:
  "returned (\<lambda>e. \<not> truncation_error e) (Some r) \<longleftrightarrow> stable r"
  by (cases r) simp_all

lemma parse_append:
  "returned (\<lambda>e. \<not> truncation_error e) (parse f buf off key ctr) \<Longrightarrow>
   parse f (buf @ ex) off key ctr = parse f buf off key ctr"
proof (induction f arbitrary: off key ctr)
  case 0
  then show ?case by (simp add: parse.simps)
next
  case (Suc f)
  let ?ok = "\<lambda>e. \<not> truncation_error e"
  from Suc.prems have lt: "off < length buf"
    by (auto simp: parse_Suc_view truncation_error_def split: if_splits)
  then have nth: "(buf @ ex) ! off = buf ! off" and lt': "\<not> length (buf @ ex) \<le> off"
    by (simp_all add: nth_append)
  show ?case
  proof (cases "container_tag (buf ! off)")
    case False
    with Suc.prems lt have "stable (scalar_step buf (off + 1) (buf ! off) (fst (generateId ctr)) key (Suc ctr))"
      by (simp add: parse_Suc_view stable_iff_returned)
    from scalar_step_ext [OF this] False lt lt' nth show ?thesis
      by (simp add: parse_Suc_view)
  next
    case True
    from Suc.prems True lt have st: "stable (container_header buf (off + 1) (buf ! off))"
      by (auto simp: parse_Suc_view split: sum.splits)
    note h = container_header_ext [OF st, of ex]
    show ?thesis
    proof (cases "container_header buf (off + 1) (buf ! off)")
      case (Inl e)
      with True lt lt' nth h show ?thesis by (simp add: parse_Suc_view)
    next
      case (Inr x)
      obtain isMap raw len off2 where x: "x = (isMap, raw, len, off2)" by (cases x)
      from Suc.prems True lt Inr x
      have "returned ?ok (children_loop isMap (parse f buf) len [] off2 (Suc ctr))"
        by (simp add: parse_Suc_view returned_container)
      from children_loop_agree [of ?ok "parse f buf" "parse f (buf @ ex)", OF Suc.IH this]
      show ?thesis using True lt lt' nth h Inr x by (simp add: parse_Suc_view)
    qed
  qed
qed

subsection \<open>Evaluation\<close>

lemma array_loop_unfold:
  "array_loop p n acc off ctr =
     (if n = 0 then Some (Inr (acc, off, ctr))
      else case p off KUndefined ctr of
        None \<Rightarrow> None
      | Some (Inl e) \<Rightarrow> Some (Inl e)
      | Some (Inr (v, off', ctr')) \<Rightarrow> array_loop p (n - 1) (acc @ [v]) off' ctr')"
  by (cases n) (simp_all split: option.split sum.split)

lemma map_loop_unfold:
  "map_loop p n acc off ctr =
     (if n = 0 then Some (Inr (acc, off, ctr))
      else case p off KUndefined ctr of
        None \<Rightarrow> None
      | Some (Inl e) \<Rightarrow> Some (Inl e)
      | Some (Inr (k, off1, ctr1)) \<Rightarrow>
          (case p off1 (getKey k) ctr1 of
             None \<Rightarrow> None
           | Some (Inl e) \<Rightarrow> Some (Inl e)
           | Some (Inr (v, off2, ctr2)) \<Rightarrow> map_loop p (n - 1) (acc @ [v]) off2 ctr2))"
  by (cases n) (simp_all split: option.split sum.split)

lemmas decoder_eval =
  parse.simps array_loop_unfold map_loop_unfold container_def parse_switch_def leaf_def bindE_def
  readExt_def readBin_def readString_def getKey_def generateId_def
  bin_case_def str_case_def uint_case_def int_case_def ext_case_def
  getUint8_def getUint16_def getUint32_def getBigUint64_def getInt8_def getInt16_def
  getInt32_def getBigInt64_def getUint_def getInt_def getFloat32_def getFloat64_def
  view_bytes_def be_nat_def Let_def show_nat.simps toString16.simps
  TextDecoder_decode_def strip_bom_def utf16_units_def

subsection \<open>Trailing bytes\<close>

lemma parse_enough_fuel:
  assumes "parse f buf off key ctr = Some r" "length buf - off < f'"
  shows "parse f' buf off key ctr = Some r"
proof -
  have a: "parse f' buf off key ctr \<noteq> None" using assms(2) by (rule parse_total)
  have "parse (max f f') buf off key ctr = parse f buf off key ctr"
    using assms(1) by (intro parse_fuel_mono) auto
  moreover have "parse (max f f') buf off key ctr = parse f' buf off key ctr"
    using a by (intro parse_fuel_mono) auto
  ultimately show ?thesis using assms(1) by simp
qed

lemma parse_append_success:
  assumes "parse f bytes off key ctr = Some (Inr x)" "length (bytes @ extra) - off < f'"
  shows "parse f' (bytes @ extra) off key ctr = Some (Inr x)"
proof -
  have "parse f (bytes @ extra) off key ctr = Some (Inr x)"
    using parse_append [of f bytes off key ctr extra] assms(1) by simp
  then show ?thesis using assms(2) by (rule parse_enough_fuel)
qed

text \<open>
  Claim C10. When the recovered bytes start with a value that decodes, whatever
  follows it, \<open>parseMsgpack\<close> succeeds with that value as the root: the offset reached
  is not compared with the length of the buffer, and the root is the one decoded from
  the value's bytes alone.
\<close>

theorem trailing_bytes_ignored:
  "(recover input format = Inr (buf, detected)
      \<and> parse (Suc (length buf)) buf 0 KUndefined 0 = Some (Inr (rootNode, off, ctr))
    \<longrightarrow> parseMsgpack rangeMessage nodeIdCounter input format = Some (Success rootNode detected buf)
        \<and> off \<le> length buf)
   \<and> (recover input format = Inr (bytes @ extra, detected)
      \<and> parse (Suc (length bytes)) bytes 0 KUndefined 0 = Some (Inr (rootNode, off, ctr))
    \<longrightarrow> parseMsgpack rangeMessage nodeIdCounter input format
          = Some (Success rootNode detected (bytes @ extra)))"
proof (intro conjI impI)
  assume a: "recover input format = Inr (buf, detected)
      \<and> parse (Suc (length buf)) buf 0 KUndefined 0 = Some (Inr (rootNode, off, ctr))"
  then have "buf \<noteq> []" by (auto simp: parse.simps)
  with a show "parseMsgpack rangeMessage nodeIdCounter input format = Some (Success rootNode detected buf)"
    by (simp add: parseMsgpack_def)
  from a parse_bounds show "off \<le> length buf" by blast
next
  assume a: "recover input format = Inr (bytes @ extra, detected)
      \<and> parse (Suc (length bytes)) bytes 0 KUndefined 0 = Some (Inr (rootNode, off, ctr))"
  then have ne: "bytes @ extra \<noteq> []" by (auto simp: parse.simps)
  from a have "parse (Suc (length (bytes @ extra))) (bytes @ extra) 0 KUndefined 0
      = Some (Inr (rootNode, off, ctr))"
    by (intro parse_append_success [of "Suc (length bytes)"]) auto
  with a ne show "parseMsgpack rangeMessage nodeIdCounter input format
      = Some (Success rootNode detected (bytes @ extra))"
    by (simp add: parseMsgpack_def del: append_is_Nil_conv)
qed

lemma parse_c0: "parse (Suc (length [0xc0 :: byte])) [0xc0] 0 KUndefined 0
    = Some (Inr (Node ''node-0'' KUndefined VNull NULL (Some ''nil'') None None None, 1, 1))"
  by (simp add: decoder_eval)

lemma recover_c0c1c2: "recover (js ''c0c1c2'') HEX = Inr ([0xc0] @ [0xc1, 0xc2], HEX)"
  by code_simp

theorem trailing_bytes_ignored_witness:
  "recover (js ''c0c1c2'') HEX = Inr ([0xc0] @ [0xc1, 0xc2], HEX)
   \<and> parse (Suc (length [0xc0 :: byte])) [0xc0] 0 KUndefined 0
       = Some (Inr (Node ''node-0'' KUndefined VNull NULL (Some ''nil'') None None None, 1, 1))
   \<and> parseMsgpack ''range'' 5 (js ''c0c1c2'') HEX
       = Some (Success (Node ''node-0'' KUndefined VNull NULL (Some ''nil'') None None None) HEX
                [0xc0, 0xc1, 0xc2])"
  using trailing_bytes_ignored [of "js ''c0c1c2''" HEX "[0xc0, 0xc1, 0xc2]" HEX
      "Node ''node-0'' KUndefined VNull NULL (Some ''nil'') None None None" 1 1 "''range''" 5
      "[0xc0]" "[0xc1, 0xc2]"]
    parse_c0 recover_c0c1c2
  by simp

text \<open>\<open>parseMsgpack\<close> always returns: the depth it gives the parser is enough.\<close>

lemma parseMsgpack_returns: "parseMsgpack rangeMessage c input format \<noteq> None"
proof -
  have t: "parse (Suc (length bytes)) bytes 0 KUndefined 0 \<noteq> None" for bytes
    by (rule parse_total) simp
  show ?thesis
  proof (cases "recover input format")
    case (Inl e)
    then show ?thesis by (simp add: parseMsgpack_def)
  next
    case (Inr x)
    obtain bytes detected where x: "x = (bytes, detected)" by (cases x)
    from t [of bytes] Inr x show ?thesis
      by (cases "parse (Suc (length bytes)) bytes 0 KUndefined 0")
         (auto simp: parseMsgpack_def split: sum.splits)
  qed
qed

subsection \<open>Truncation\<close>

lemma parse_truncated:
  assumes ok: "parse f buf off key ctr = Some (Inr (n, off', ctr'))"
    and m: "m < off'" and f': "m - off < f'"
  shows "\<exists>e. parse f' (take m buf) off key ctr = Some (Inl e) \<and> truncation_error e"
proof -
  let ?r = "parse f' (take m buf) off key ctr"
  have "length (take m buf) - off < f'" using f' by simp
  then have nn: "?r \<noteq> None" by (rule parse_total)
  have "\<not> returned (\<lambda>e. \<not> truncation_error e) ?r"
  proof
    assume st: "returned (\<lambda>e. \<not> truncation_error e) ?r"
    from parse_append [OF st, of "drop m buf"]
    have "parse f' buf off key ctr = ?r" by simp
    moreover have "parse (max f f') buf off key ctr = parse f buf off key ctr"
      using ok by (intro parse_fuel_mono) auto
    moreover have "parse (max f f') buf off key ctr = parse f' buf off key ctr"
      using nn \<open>parse f' buf off key ctr = ?r\<close> by (intro parse_fuel_mono) auto
    ultimately have "?r = Some (Inr (n, off', ctr'))" using ok by simp
    from parse_bounds [OF this] m show False by simp
  qed
  with nn show ?thesis by (auto simp: returned_def split: option.splits sum.splits)
qed

lemma parse_fixstr5_short:
  "parse (Suc 0) [0xa5, 0x61, 0x62, 0x63] 0 KUndefined 0
     = Some (Inl (Error ''Unexpected end of input (String)''))"
  by (simp add: decoder_eval)

lemma parseHex_a5616263: "parseHex (js ''a5616263'') = Inr [0xa5, 0x61, 0x62, 0x63]"
  by code_simp

lemma parseMsgpack_fixstr5_short:
  "parseMsgpack rangeMessage c (js ''a5616263'') HEX = Some (Failure ''Unexpected end of input (String)'')"
  by (simp add: parseMsgpack_def recover_def parseHex_a5616263 error_message_def decoder_eval)

text \<open>
  Claim C2, as the code has it. A read that would run past the end of the buffer
  fails, and no node is returned: \<open>readString\<close> with the message for a string,
  \<open>readBin\<close> (binary and extension payloads) with the message for a binary, a value
  expected at or after the end with the bare message, every \<open>DataView\<close> getter (scalars,
  length prefixes, the extension type byte) with the engine's RangeError. None of the
  messages names the offset. When a buffer decodes, every cut of it short of the end
  of the value fails with one of these errors. \<open>a5\<close> followed by three bytes fails with
  the message for a string.
\<close>

theorem truncation_fails:
  "(off + len > length buf \<longrightarrow>
      readString buf off len = Inl (Error ''Unexpected end of input (String)'')
      \<and> readBin buf off len = Inl (Error ''Unexpected end of input (Binary)''))
   \<and> (off + w > length buf \<longrightarrow>
      getUint w buf off = Inl RangeError \<and> getInt w buf off = Inl RangeError)
   \<and> (off + 4 > length buf \<longrightarrow> getFloat32 buf off = Inl RangeError)
   \<and> (off + 8 > length buf \<longrightarrow> getFloat64 buf off = Inl RangeError)
   \<and> (off \<ge> length buf \<longrightarrow>
      parse (Suc f) buf off key ctr = Some (Inl (Error ''Unexpected end of input'')))
   \<and> (parse f buf off key ctr = Some (Inr (n, off', ctr')) \<and> m < off' \<and> m - off < f' \<longrightarrow>
      (\<exists>e. parse f' (take m buf) off key ctr = Some (Inl e) \<and> truncation_error e))
   \<and> parse (Suc 0) [0xa5, 0x61, 0x62, 0x63] 0 KUndefined 0
       = Some (Inl (Error ''Unexpected end of input (String)''))
   \<and> parseMsgpack rangeMessage c (js ''a5616263'') HEX
       = Some (Failure ''Unexpected end of input (String)'')"
proof -
  have a: "off + len > length buf \<longrightarrow>
      readString buf off len = Inl (Error ''Unexpected end of input (String)'')
      \<and> readBin buf off len = Inl (Error ''Unexpected end of input (Binary)'')"
    by (simp add: readString_def readBin_def Let_def)
  have b: "off + w > length buf \<longrightarrow>
      getUint w buf off = Inl RangeError \<and> getInt w buf off = Inl RangeError"
    by (simp add: getUint_def getInt_def view_bytes_def)
  have c: "off + 4 > length buf \<longrightarrow> getFloat32 buf off = Inl RangeError"
    by (simp add: getFloat32_def view_bytes_def)
  have d: "off + 8 > length buf \<longrightarrow> getFloat64 buf off = Inl RangeError"
    by (simp add: getFloat64_def view_bytes_def)
  have e: "off \<ge> length buf \<longrightarrow>
      parse (Suc f) buf off key ctr = Some (Inl (Error ''Unexpected end of input''))"
    by (simp add: parse.simps)
  have g: "parse f buf off key ctr = Some (Inr (n, off', ctr')) \<and> m < off' \<and> m - off < f' \<longrightarrow>
      (\<exists>e. parse f' (take m buf) off key ctr = Some (Inl e) \<and> truncation_error e)"
    using parse_truncated by blast
  from a b c d e g parse_fixstr5_short parseMsgpack_fixstr5_short show ?thesis by blast
qed

lemma parse_fixstr5_full:
  "parse (Suc 0) [0xa5, 0x61, 0x62, 0x63, 0x64, 0x65] 0 KUndefined 0
     = Some (Inr (Node ''node-0'' KUndefined (VString (js ''abcde'')) STRING (Some ''str(5)'') None
                   (Some 5) None, 6, 1))"
  by (simp add: decoder_eval js_def)

theorem truncation_fails_witness:
  "(0::nat) + 5 > length [0xa5 :: byte, 0x61, 0x62, 0x63]
   \<and> readString [0xa5, 0x61, 0x62, 0x63] 0 5 = Inl (Error ''Unexpected end of input (String)'')
   \<and> getUint 2 [0xcd, 0x01] 1 = Inl RangeError
   \<and> parse (Suc 0) [0xc0] 1 KUndefined 0 = Some (Inl (Error ''Unexpected end of input''))
   \<and> parse (Suc 0) [0xa5, 0x61, 0x62, 0x63, 0x64, 0x65] 0 KUndefined 0
       = Some (Inr (Node ''node-0'' KUndefined (VString (js ''abcde'')) STRING (Some ''str(5)'') None
                     (Some 5) None, 6, 1))
   \<and> (\<exists>e. parse 5 (take 4 [0xa5, 0x61, 0x62, 0x63, 0x64, 0x65]) 0 KUndefined 0 = Some (Inl e)
          \<and> truncation_error e)"
proof -
  note t = truncation_fails [where off = 0 and len = 5 and buf = "[0xa5, 0x61, 0x62, 0x63]"]
  note u = truncation_fails [where off = 1 and w = 2 and buf = "[0xcd, 0x01]"]
  note v = truncation_fails [where off = 1 and buf = "[0xc0]" and f = 0 and key = KUndefined
      and ctr = 0]
  note w = truncation_fails [where off = 0 and buf = "[0xa5, 0x61, 0x62, 0x63, 0x64, 0x65]"
      and f = "Suc 0" and key = KUndefined and ctr = 0 and m = 4 and f' = 5 and off' = 6
      and ctr' = 1
      and n = "Node ''node-0'' KUndefined (VString (js ''abcde'')) STRING (Some ''str(5)'') None
                 (Some 5) None"]
  have 1: "readString [0xa5, 0x61, 0x62, 0x63] 0 5 = Inl (Error ''Unexpected end of input (String)'')"
    using t by simp
  have 2: "getUint 2 [0xcd, 0x01] 1 = Inl RangeError"
    using u by simp
  have 3: "parse (Suc 0) [0xc0] 1 KUndefined 0 = Some (Inl (Error ''Unexpected end of input''))"
    using v by simp
  have 4: "\<exists>e. parse 5 (take 4 [0xa5, 0x61, 0x62, 0x63, 0x64, 0x65]) 0 KUndefined 0 = Some (Inl e)
          \<and> truncation_error e"
    using w parse_fixstr5_full by simp
  from 1 2 3 4 parse_fixstr5_full show ?thesis by simp
qed

text \<open>
  Where the claim fails: the uint16 tag \<open>cd\<close> followed by one byte fails with the
  RangeError of the \<open>DataView\<close>, which is not the decoder's end-of-input error, and
  the message for the short string carries no digit, so no offset.
\<close>

theorem truncation_error_counterexample:
  "parse (Suc 0) [0xcd, 0x01] 0 KUndefined 0 = Some (Inl RangeError)
   \<and> parseMsgpack ''Offset is outside the bounds of the DataView'' 0 (js ''cd01'') HEX
       = Some (Failure ''Offset is outside the bounds of the DataView'')
   \<and> parseMsgpack ''Offset is outside the bounds of the DataView'' 0 (js ''a5616263'') HEX
       = Some (Failure ''Unexpected end of input (String)'')
   \<and> set ''Unexpected end of input (String)'' \<inter> set ''0123456789'' = {}"
proof -
  have h: "parseHex (js ''cd01'') = Inr [0xcd, 0x01]" by code_simp
  have 1: "parse (Suc 0) [0xcd, 0x01] 0 KUndefined 0 = Some (Inl RangeError)"
    by (simp add: decoder_eval)
  have 2: "parseMsgpack ''Offset is outside the bounds of the DataView'' 0 (js ''cd01'') HEX
       = Some (Failure ''Offset is outside the bounds of the DataView'')"
    by (simp add: parseMsgpack_def recover_def h error_message_def decoder_eval)
  have 3: "set ''Unexpected end of input (String)'' \<inter> set ''0123456789'' = {}"
    by simp
  from 1 2 3 parseMsgpack_fixstr5_short show ?thesis by simp
qed

subsection \<open>Empty and blank input\<close>

lemma trim_empty_iff: "trim s = [] \<longleftrightarrow> list_all isWhiteSpace s"
proof
  assume "trim s = []"
  then have a: "\<forall>x\<in>set (dropWhile isWhiteSpace s). isWhiteSpace x"
    by (simp add: trim_def dropWhile_eq_Nil_conv)
  have "dropWhile isWhiteSpace s = []"
  proof (rule ccontr)
    assume ne: "dropWhile isWhiteSpace s \<noteq> []"
    then have "\<not> isWhiteSpace (hd (dropWhile isWhiteSpace s))" by (rule hd_dropWhile)
    moreover from ne have "hd (dropWhile isWhiteSpace s) \<in> set (dropWhile isWhiteSpace s)" by simp
    ultimately show False using a by blast
  qed
  then show "list_all isWhiteSpace s" by (simp add: dropWhile_eq_Nil_conv list_all_iff)
next
  assume "list_all isWhiteSpace s"
  then have d: "dropWhile isWhiteSpace s = []" by (simp add: dropWhile_eq_Nil_conv list_all_iff)
  show "trim s = []" unfolding trim_def d by simp
qed

lemma endsWith_mem: "endsWith d p \<Longrightarrow> set p \<subseteq> set d"
  by (metis endsWith_def set_drop_subset)

lemma blank_hexClean:
  assumes "list_all isWhiteSpace s"
  shows "hexClean s = []"
proof -
  have "\<not> isWhiteSpace 0x30" by (simp add: isWhiteSpace_def)
  with assms have "\<not> startsWith s (js ''0x'')"
    by (cases s) (auto simp: startsWith_def js_def)
  with assms show ?thesis
    by (simp add: hexClean_def replace_0x_def remove_ws_def list_all_iff)
qed

lemma blank_parseHex:
  "list_all isWhiteSpace s \<Longrightarrow> parseHex s = Inl (Error ''Invalid Hex characters'')"
  by (simp add: parseHex_def blank_hexClean hexRe_test_def)

lemma py_loop_Nil: "py_loop [] 0 [] = []"
  by (subst py_loop.simps) simp

lemma blank_parsePythonBytes: "trim s = [] \<Longrightarrow> parsePythonBytes s = []"
  by (simp add: parsePythonBytes_def strip_wrapper_def startsWith_def b_squote_def b_dquote_def
      py_loop_Nil)

lemma blank_autoDetect:
  "trim s = [] \<Longrightarrow>
   autoDetectAndDecode s = Inl (Error ''Could not auto-detect format. Please select one manually.'')"
  by (simp add: autoDetectAndDecode_def autoDetect_trace_def python_candidate_def hex_candidate_def
      base64_candidate_def fallback_candidate_def startsWith_def b_squote_def b_dquote_def
      replace_0x_def remove_ws_def js_def hexRe_test_def base64Re_test_def backslash_x_def)

lemma blank_atob:
  assumes "list_all isWhiteSpace s"
  shows "atob s = (if list_all isAsciiWhitespace s then Some [] else None)"
proof -
  let ?d = "filter (\<lambda>c. \<not> isAsciiWhitespace c) s"
  have ws: "\<forall>c\<in>set ?d. isWhiteSpace c" using assms by (simp add: list_all_iff)
  have "(0x3D :: jschar) \<notin> set ?d"
    using ws by (auto simp: isWhiteSpace_def)
  then have sp: "strip_padding ?d = ?d"
    using endsWith_mem [of ?d "[0x3D, 0x3D]"] endsWith_mem [of ?d "[0x3D]"]
    by (auto simp: strip_padding_def)
  show ?thesis
  proof (cases "list_all isAsciiWhitespace s")
    case True
    then have "?d = []" by (simp add: list_all_iff)
    with True sp show ?thesis by (simp add: atob_def Let_def)
  next
    case False
    then obtain c where c: "c \<in> set ?d" by (auto simp: list_all_iff)
    with ws have "isWhiteSpace c" by blast
    then have "\<not> isBase64Alphabet c"
      by (auto simp: isWhiteSpace_def isBase64Alphabet_def word_le_nat_alt)
    with c have "\<not> list_all isBase64Alphabet ?d" by (auto simp: list_all_iff)
    with False sp show ?thesis by (simp add: atob_def Let_def)
  qed
qed

text \<open>
  Claim C7, as the code has it. \<open>parseMsgpack\<close> tests the recovered bytes, not the
  text: whenever the recovery returns no byte at all it answers with the dedicated
  empty-input failure and does not run the decoder. For a text that is empty or all
  white space this is what happens with the escaped byte-string format, and with base64
  when the white space is ASCII white space; with hex the recovery itself fails first
  (the text has no hexadecimal digit), and so does auto-detection (no candidate).
\<close>

theorem empty_input_results:
  "(recover input format = Inr ([], detected) \<longrightarrow>
      parseMsgpack rangeMessage c input format = Some (Failure ''Empty input''))
   \<and> (trim input = [] \<longrightarrow>
      parseMsgpack rangeMessage c input PYTHON = Some (Failure ''Empty input'')
      \<and> parseMsgpack rangeMessage c input BASE64
          = Some (Failure (if list_all isAsciiWhitespace input then ''Empty input''
                           else ''Invalid Base64 string''))
      \<and> parseMsgpack rangeMessage c input HEX = Some (Failure ''Invalid Hex characters'')
      \<and> parseMsgpack rangeMessage c input AUTO
          = Some (Failure ''Could not auto-detect format. Please select one manually.''))"
proof (intro conjI impI)
  assume "recover input format = Inr ([], detected)"
  then show "parseMsgpack rangeMessage c input format = Some (Failure ''Empty input'')"
    by (simp add: parseMsgpack_def)
next
  assume t: "trim input = []"
  then have ws: "list_all isWhiteSpace input" by (simp add: trim_empty_iff)
  show "parseMsgpack rangeMessage c input PYTHON = Some (Failure ''Empty input'')"
    using t by (simp add: parseMsgpack_def recover_def blank_parsePythonBytes)
  show "parseMsgpack rangeMessage c input BASE64
          = Some (Failure (if list_all isAsciiWhitespace input then ''Empty input''
                           else ''Invalid Base64 string''))"
    using ws by (simp add: parseMsgpack_def recover_def parseBase64_def blank_atob bindE_def
        error_message_def)
  show "parseMsgpack rangeMessage c input HEX = Some (Failure ''Invalid Hex characters'')"
    using ws by (simp add: parseMsgpack_def recover_def blank_parseHex bindE_def error_message_def)
  show "parseMsgpack rangeMessage c input AUTO
          = Some (Failure ''Could not auto-detect format. Please select one manually.'')"
    using t by (simp add: parseMsgpack_def recover_def blank_autoDetect error_message_def)
qed

theorem empty_input_results_witness:
  "recover (js ''  '') BASE64 = Inr ([], BASE64)
   \<and> parseMsgpack ''r'' 3 (js ''  '') BASE64 = Some (Failure ''Empty input'')
   \<and> trim (js '' '') = []
   \<and> parseMsgpack ''r'' 3 (js '' '') PYTHON = Some (Failure ''Empty input'')
   \<and> parseMsgpack ''r'' 3 (js '' '') HEX = Some (Failure ''Invalid Hex characters'')
   \<and> parseMsgpack ''r'' 3 (js '' '') AUTO
       = Some (Failure ''Could not auto-detect format. Please select one manually.'')"
proof -
  have r: "recover (js ''  '') BASE64 = Inr ([], BASE64)" by code_simp
  have t: "trim (js '' '') = []" by code_simp
  from r t
    empty_input_results [where input = "js ''  ''" and format = BASE64 and detected = BASE64
      and rangeMessage = "''r''" and c = 3]
    empty_input_results [where input = "js '' ''" and format = BASE64 and detected = BASE64
      and rangeMessage = "''r''" and c = 3]
  show ?thesis by simp
qed

text \<open>
  Where the claim fails: for the empty text, hex answers with its own error and auto
  with the detector's, not with the empty-input failure.
\<close>

theorem empty_input_counterexample:
  "parseMsgpack ''r'' 0 (js '''') HEX = Some (Failure ''Invalid Hex characters'')
   \<and> parseMsgpack ''r'' 0 (js '''') AUTO
       = Some (Failure ''Could not auto-detect format. Please select one manually.'')
   \<and> ''Invalid Hex characters'' \<noteq> ''Empty input''
   \<and> ''Could not auto-detect format. Please select one manually.'' \<noteq> ''Empty input''"
proof -
  have h: "parseHex (js '''') = Inl (Error ''Invalid Hex characters'')" by code_simp
  have a: "autoDetectAndDecode (js '''')
      = Inl (Error ''Could not auto-detect format. Please select one manually.'')" by code_simp
  show ?thesis
    by (simp add: parseMsgpack_def recover_def h a bindE_def error_message_def)
qed

subsection \<open>Map entries\<close>

lemma parseHex_fixmap: "parseHex (js ''81a36b6579a576616c7565'')
    = Inr [0x81, 0xa3, 0x6b, 0x65, 0x79, 0xa5, 0x76, 0x61, 0x6c, 0x75, 0x65]"
  by code_simp

lemma parseHex_extmap: "parseHex (js ''81a16bd405ff'') = Inr [0x81, 0xa1, 0x6b, 0xd4, 0x05, 0xff]"
  by code_simp

text \<open>
  Claim C1, evaluated. The map of the claim decodes as the claim says: one child of kind
  String with value \<open>value\<close> and key \<open>key\<close>. The map \<open>81 a1 6b d4 05 ff\<close>, whose
  entry has the key \<open>k\<close> and a fixext1 value, decodes to a child without any key:
  \<open>readExt\<close> returns a node of its own, and the key given to \<open>parse\<close> is lost.
\<close>

theorem map_entry_keys:
  "parseMsgpack rangeMessage c (js ''81a36b6579a576616c7565'') HEX =
     Some (Success
       (Node ''node-0'' KUndefined VNull MAP (Some ''map(1)'')
          (Some [Node ''node-2'' (KValue (VString (js ''key''))) (VString (js ''value'')) STRING
                   (Some ''str(5)'') None (Some 5) None])
          (Some 1) None)
       HEX [0x81, 0xa3, 0x6b, 0x65, 0x79, 0xa5, 0x76, 0x61, 0x6c, 0x75, 0x65])
   \<and> parseMsgpack rangeMessage c (js ''81a16bd405ff'') HEX =
     Some (Success
       (Node ''node-0'' KUndefined VNull MAP (Some ''map(1)'')
          (Some [Node ''node-3'' KUndefined (VBytes [0xff]) EXTENSION (Some ''fixext1'') None
                   (Some 1) (Some 5)])
          (Some 1) None)
       HEX [0x81, 0xa1, 0x6b, 0xd4, 0x05, 0xff])"
proof -
  have r1: "recover (js ''81a36b6579a576616c7565'') HEX
      = Inr ([0x81, 0xa3, 0x6b, 0x65, 0x79, 0xa5, 0x76, 0x61, 0x6c, 0x75, 0x65], HEX)"
    by (simp add: recover_def parseHex_fixmap bindE_def)
  have r2: "recover (js ''81a16bd405ff'') HEX = Inr ([0x81, 0xa1, 0x6b, 0xd4, 0x05, 0xff], HEX)"
    by (simp add: recover_def parseHex_extmap bindE_def)
  have k: "js ''key'' = [0x6b, 0x65, 0x79]" "js ''value'' = [0x76, 0x61, 0x6c, 0x75, 0x65]"
    by (simp_all add: js_def)
  show ?thesis
    unfolding k by (simp add: parseMsgpack_def r1 r2 decoder_eval)
qed

subsection \<open>Integers\<close>

lemma foldl_be_bound:
  "foldl (\<lambda>a b. a * 256 + unat (b :: byte)) a bs < (a + 1) * 256 ^ length bs"
proof (induction bs arbitrary: a)
  case Nil
  show ?case by simp
next
  case (Cons b bs)
  have "unat b < 256" using unsigned_less [of b, where 'a = nat] by simp
  then have "a * 256 + unat b + 1 \<le> (a + 1) * 256" by simp
  then have "(a * 256 + unat b + 1) * 256 ^ length bs \<le> (a + 1) * 256 * 256 ^ length bs"
    by (rule mult_right_mono) simp
  moreover have "foldl (\<lambda>a b. a * 256 + unat (b :: byte)) (a * 256 + unat b) bs
      < (a * 256 + unat b + 1) * 256 ^ length bs"
    by (rule Cons.IH)
  ultimately have "foldl (\<lambda>a b. a * 256 + unat (b :: byte)) (a * 256 + unat b) bs
      < (a + 1) * 256 * 256 ^ length bs"
    by (rule less_le_trans [rotated])
  then show ?case by (simp add: algebra_simps)
qed

lemma be_nat_bound: "be_nat bs < 256 ^ length bs"
  using foldl_be_bound [of 0 bs] by (simp add: be_nat_def)

lemma getUint_bound: "getUint w buf off = Inr v \<Longrightarrow> v < 256 ^ w"
  using be_nat_bound [of "take w (drop off buf)"]
  by (auto simp: getUint_def view_bytes_def split: if_splits)

lemma getInt_value:
  assumes "getInt w buf off = Inr v" "0 < w"
  shows "- (2 ^ (8 * w - 1)) \<le> v \<and> v < 2 ^ (8 * w - 1)
         \<and> v mod 2 ^ (8 * w) = int (be_nat (take w (drop off buf)))"
proof -
  let ?u = "be_nat (take w (drop off buf))"
  from assms(1) have len: "off + w \<le> length buf"
    and v: "v = (if ?u \<ge> 2 ^ (8 * w - 1) then int ?u - 2 ^ (8 * w) else int ?u)"
    by (auto simp: getInt_def view_bytes_def split: if_splits)
  have "(256 :: nat) ^ w = 2 ^ (8 * w)"
    by (simp add: power_mult)
  with be_nat_bound [of "take w (drop off buf)"] len have u: "?u < 2 ^ (8 * w)" by simp
  have "8 * w = Suc (8 * w - 1)" using assms(2) by simp
  then have p: "(2 :: int) ^ (8 * w) = 2 * 2 ^ (8 * w - 1)"
    by (metis power_Suc)
  have ui: "int ?u < 2 ^ (8 * w)" using u by (metis of_nat_less_iff of_nat_numeral of_nat_power)
  show ?thesis
  proof (cases "?u \<ge> 2 ^ (8 * w - 1)")
    case True
    then have "int ?u \<ge> 2 ^ (8 * w - 1)"
      by (metis of_nat_le_iff of_nat_numeral of_nat_power)
    moreover have "(int ?u - 2 ^ (8 * w)) mod 2 ^ (8 * w) = int ?u"
      using ui by (simp add: mod_diff_right_eq [symmetric])
    ultimately show ?thesis using True v ui p by simp
  next
    case False
    then have "int ?u < 2 ^ (8 * w - 1)"
      by (metis not_le of_nat_less_iff of_nat_numeral of_nat_power)
    moreover have "- (2 ^ (8 * w - 1)) \<le> int ?u"
      by (rule order_trans [of _ 0]) simp_all
    moreover have "int ?u mod 2 ^ (8 * w) = int ?u" using ui by simp
    ultimately show ?thesis using False v by (simp del: One_nat_def)
  qed
qed

lemma getInt_ranges:
  "getInt (Suc 0) buf off = Inr v \<Longrightarrow> - (2 ^ 31) \<le> v \<and> v < 2 ^ 32"
  "getInt 2 buf off = Inr v \<Longrightarrow> - (2 ^ 31) \<le> v \<and> v < 2 ^ 32"
  "getInt 4 buf off = Inr v \<Longrightarrow> - (2 ^ 31) \<le> v \<and> v < 2 ^ 32"
  "getInt 8 buf off = Inr v \<Longrightarrow>
     - (2 ^ 63) \<le> v \<and> v < 2 ^ 63 \<and> v mod 2 ^ 64 = int (be_nat (take 8 (drop off buf)))"
  using getInt_value [of 1 buf off v] getInt_value [of 2 buf off v]
    getInt_value [of 4 buf off v] getInt_value [of 8 buf off v]
  by simp_all

lemma getUint_facts:
  "getUint w buf off = Inr u \<Longrightarrow> u = be_nat (take w (drop off buf)) \<and> u < 256 ^ w"
  using getUint_bound [of w buf off u] getUint_Inr [of w buf off u] by simp

lemma uint_case_value:
  "uint_case get w label mk buf off nid key ctr = Inr (n, off', ctr') \<Longrightarrow>
   \<exists>u. get buf off = Inr u \<and> node_value n = mk (int u)"
  by (auto simp: uint_case_def bindE_Inr leaf_def)

lemma int_case_value:
  "int_case get w label mk buf off nid key ctr = Inr (n, off', ctr') \<Longrightarrow>
   \<exists>v. get buf off = Inr v \<and> node_value n = mk v"
  by (auto simp: int_case_def bindE_Inr leaf_def)

lemma not_INTEGER:
  "bin_case g w label buf off nid key ctr = Inr (n, off', ctr') \<Longrightarrow> node_type n \<noteq> INTEGER"
  "str_case g w label buf off nid key ctr = Inr (n, off', ctr') \<Longrightarrow> node_type n \<noteq> INTEGER"
  "ext_case g w label buf off ctr = Inr (n, off', ctr') \<Longrightarrow> node_type n \<noteq> INTEGER"
  "readExt buf off ctr len label = Inr (n, off', ctr') \<Longrightarrow> node_type n \<noteq> INTEGER"
  by (auto simp: bin_case_def str_case_def ext_case_def readExt_def bindE_Inr leaf_def split_def)

lemma scalar_step_INTEGER:
  assumes "scalar_step buf off1 byte nid key ctr1 = Inr (n, off', ctr')" "node_type n = INTEGER"
  shows "(byte = 0xcf \<longrightarrow> node_value n = VBigInt (int (be_nat (take 8 (drop off1 buf)))))
       \<and> (byte = 0xd3 \<longrightarrow>
            (\<exists>v. node_value n = VBigInt v \<and> - (2 ^ 63) \<le> v \<and> v < 2 ^ 63
                 \<and> v mod 2 ^ 64 = int (be_nat (take 8 (drop off1 buf)))))
       \<and> (byte \<noteq> 0xcf \<and> byte \<noteq> 0xd3 \<longrightarrow>
            (\<exists>v. node_value n = VNumber v \<and> - (2 ^ 31) \<le> v \<and> v < 2 ^ 32))"
proof -
  have lt: "uint byte < 256" using uint_lt2p [of byte] by simp
  have ge: "0 \<le> uint byte" by simp
  have ub1: "uint byte < 2 ^ 32" "uint byte - 256 < 2 ^ 32" using lt by simp_all
  have ub2: "- (2 ^ 31) \<le> uint byte" by (rule order_trans [OF _ ge]) simp
  have "- (2 ^ 31) + 256 \<le> uint byte" by (rule order_trans [OF _ ge]) simp
  then have ub3: "- (2 ^ 31) \<le> uint byte - 256" by simp
  note ub = ub1 ub2 ub3
  from assms ub show ?thesis
    unfolding scalar_step_def parse_switch_def getUint8_def getUint16_def getUint32_def
      getBigUint64_def getInt8_def getInt16_def getInt32_def getBigInt64_def
    by (auto simp: leaf_def bindE_Inr
        dest: not_INTEGER
        dest!: uint_case_value int_case_value getInt_ranges getUint_facts
        split: if_splits)
qed

lemma parse_INTEGER:
  assumes "parse f buf off key ctr = Some (Inr (n, off', ctr'))" "node_type n = INTEGER"
  shows "(buf ! off = 0xcf \<longrightarrow> node_value n = VBigInt (int (be_nat (take 8 (drop (off + 1) buf)))))
       \<and> (buf ! off = 0xd3 \<longrightarrow>
            (\<exists>v. node_value n = VBigInt v \<and> - (2 ^ 63) \<le> v \<and> v < 2 ^ 63
                 \<and> v mod 2 ^ 64 = int (be_nat (take 8 (drop (off + 1) buf)))))
       \<and> (buf ! off \<noteq> 0xcf \<and> buf ! off \<noteq> 0xd3 \<longrightarrow>
            (\<exists>v. node_value n = VNumber v \<and> - (2 ^ 31) \<le> v \<and> v < 2 ^ 32))"
proof (cases f)
  case 0
  with assms show ?thesis by (simp add: parse.simps)
next
  case (Suc g)
  with assms have lt: "off < length buf" by (auto simp: parse_Suc_view split: if_splits)
  show ?thesis
  proof (cases "container_tag (buf ! off)")
    case True
    with assms Suc lt have "node_type n = MAP \<or> node_type n = ARRAY"
      by (auto simp: parse_Suc_view container_Inr split: sum.splits if_splits)
    with assms(2) show ?thesis by simp
  next
    case False
    with assms Suc lt
    have "scalar_step buf (off + 1) (buf ! off) (fst (generateId ctr)) key (Suc ctr) = Inr (n, off', ctr')"
      by (simp add: parse_Suc_view)
    from scalar_step_INTEGER [OF this assms(2)] show ?thesis .
  qed
qed

lemma show_int_example: "show_int 4294967296 = ''4294967296''"
  by (simp add: show_int_def show_nat.simps)

text \<open>
  Claim C3. The tag \<open>cf\<close> followed by \<open>00 00 00 01 00 00 00 00\<close> decodes to an Integer
  node holding the \<open>bigint\<close> 4294967296, and \<open>serializeNode\<close> renders it as the text
  \<open>4294967296\<close>. An Integer node holding a \<open>bigint\<close> projects to its decimal text, one
  holding a number to that number. In every decoded Integer node the 64-bit tags \<open>cf\<close>
  and \<open>d3\<close> give a \<open>bigint\<close> with the exact value of the eight bytes (unsigned, or
  two's complement), and every other integer tag gives a number within 32 bits.
\<close>

theorem wide_integers_exact:
  "parse (Suc 0) [0xcf, 0, 0, 0, 1, 0, 0, 0, 0] 0 KUndefined 0
     = Some (Inr (Node ''node-0'' KUndefined (VBigInt 4294967296) INTEGER (Some ''uint(64)'')
                    None None None, 9, 1))
   \<and> serializeNode JSON_stringify String
        (Node ''node-0'' KUndefined (VBigInt 4294967296) INTEGER (Some ''uint(64)'') None None None)
       = PString (js ''4294967296'')
   \<and> serializeNode JSON_stringify String (Node nid key (VBigInt i) INTEGER raw ch bl mt)
       = PString (js (show_int i))
   \<and> serializeNode JSON_stringify String (Node nid key (VNumber i) INTEGER raw ch bl mt)
       = PNumber i
   \<and> (parse f buf off k ctr = Some (Inr (n, off', ctr')) \<and> node_type n = INTEGER \<longrightarrow>
        (buf ! off = 0xcf \<longrightarrow>
           node_value n = VBigInt (int (be_nat (take 8 (drop (off + 1) buf)))))
        \<and> (buf ! off = 0xd3 \<longrightarrow>
           (\<exists>v. node_value n = VBigInt v \<and> - (2 ^ 63) \<le> v \<and> v < 2 ^ 63
                \<and> v mod 2 ^ 64 = int (be_nat (take 8 (drop (off + 1) buf)))))
        \<and> (buf ! off \<noteq> 0xcf \<and> buf ! off \<noteq> 0xd3 \<longrightarrow>
           (\<exists>v. node_value n = VNumber v \<and> - (2 ^ 31) \<le> v \<and> v < 2 ^ 32)))"
proof -
  have a: "parse (Suc 0) [0xcf, 0, 0, 0, 1, 0, 0, 0, 0] 0 KUndefined 0
     = Some (Inr (Node ''node-0'' KUndefined (VBigInt 4294967296) INTEGER (Some ''uint(64)'')
                    None None None, 9, 1))"
    by (simp add: decoder_eval)
  have b: "serializeNode JSON_stringify String
        (Node ''node-0'' KUndefined (VBigInt 4294967296) INTEGER (Some ''uint(64)'') None None None)
       = PString (js ''4294967296'')"
    by (simp add: show_int_example)
  have c: "serializeNode JSON_stringify String (Node nid key (VBigInt i) INTEGER raw ch bl mt)
       = PString (js (show_int i))"
    by simp
  have d: "serializeNode JSON_stringify String (Node nid key (VNumber i) INTEGER raw ch bl mt)
       = PNumber i"
    by simp
  from a b c d parse_INTEGER [of f buf off k ctr n off' ctr'] show ?thesis by blast
qed

theorem wide_integers_exact_witness:
  "parse (Suc 0) [0xd3, 0xff, 0xff, 0xff, 0xff, 0xff, 0xff, 0xff, 0xfe] 0 KUndefined 0
     = Some (Inr (Node ''node-0'' KUndefined (VBigInt (- 2)) INTEGER (Some ''int(64)'')
                    None None None, 9, 1))
   \<and> node_type (Node ''node-0'' KUndefined (VBigInt (- 2)) INTEGER (Some ''int(64)'') None None None)
       = INTEGER
   \<and> (\<exists>v. node_value (Node ''node-0'' KUndefined (VBigInt (- 2)) INTEGER (Some ''int(64)'')
                          None None None) = VBigInt v
          \<and> - (2 ^ 63) \<le> v \<and> v < 2 ^ 63
          \<and> v mod 2 ^ 64 = int (be_nat (take 8 (drop (0 + 1)
               [0xd3, 0xff, 0xff, 0xff, 0xff, 0xff, 0xff, 0xff, 0xfe]))))"
proof -
  have a: "parse (Suc 0) [0xd3, 0xff, 0xff, 0xff, 0xff, 0xff, 0xff, 0xff, 0xfe] 0 KUndefined 0
     = Some (Inr (Node ''node-0'' KUndefined (VBigInt (- 2)) INTEGER (Some ''int(64)'')
                    None None None, 9, 1))"
    by (simp add: decoder_eval)
  have t: "node_type (Node ''node-0'' KUndefined (VBigInt (- 2)) INTEGER (Some ''int(64)'') None None None)
       = INTEGER" by simp
  have b: "[0xd3 :: byte, 0xff, 0xff, 0xff, 0xff, 0xff, 0xff, 0xff, 0xfe] ! 0 = 0xd3" by simp
  from a t b
    wide_integers_exact [where f = "Suc 0"
      and buf = "[0xd3, 0xff, 0xff, 0xff, 0xff, 0xff, 0xff, 0xff, 0xfe]" and off = 0
      and k = KUndefined and ctr = 0 and off' = 9 and ctr' = 1
      and n = "Node ''node-0'' KUndefined (VBigInt (- 2)) INTEGER (Some ''int(64)'') None None None"]
  show ?thesis by blast
qed

subsection \<open>Node identities\<close>

lemma show_nat_nonempty: "show_nat n \<noteq> []"
  by (subst show_nat.simps) simp

lemma decimal_digit_inj:
  "n < 10 \<Longrightarrow> m < 10 \<Longrightarrow> ''0123456789'' ! n = ''0123456789'' ! m \<Longrightarrow> n = m"
proof -
  have "distinct ''0123456789''" by simp
  moreover have "length ''0123456789'' = 10" by simp
  ultimately show "n < 10 \<Longrightarrow> m < 10 \<Longrightarrow> ''0123456789'' ! n = ''0123456789'' ! m \<Longrightarrow> n = m"
    by (metis nth_eq_iff_index_eq)
qed

lemma show_nat_inj: "show_nat n = show_nat m \<Longrightarrow> n = m"
proof (induction n arbitrary: m rule: show_nat.induct)
  case (1 n)
  show ?case
  proof (cases "n < 10")
    case True
    note n = True
    show ?thesis
    proof (cases "m < 10")
      case True
      with n "1.prems" show ?thesis
        by (simp add: show_nat.simps [of n] show_nat.simps [of m] decimal_digit_inj)
    next
      case False
      with n "1.prems" show_nat_nonempty [of "m div 10"] show ?thesis
        by (simp add: show_nat.simps [of n] show_nat.simps [of m])
    qed
  next
    case False
    note n = False
    show ?thesis
    proof (cases "m < 10")
      case True
      with n "1.prems" show_nat_nonempty [of "n div 10"] show ?thesis
        by (simp add: show_nat.simps [of n] show_nat.simps [of m])
    next
      case False
      with n "1.prems" have a: "show_nat (n div 10) = show_nat (m div 10)"
        and b: "''0123456789'' ! (n mod 10) = ''0123456789'' ! (m mod 10)"
        by (simp_all add: show_nat.simps [of n] show_nat.simps [of m])
      from "1.IH" [OF n a] have "n div 10 = m div 10" .
      moreover from b have "n mod 10 = m mod 10" by (intro decimal_digit_inj) simp_all
      ultimately show ?thesis by (metis div_mult_mod_eq)
    qed
  qed
qed

lemma id_token_inj: "id_token a = id_token b \<Longrightarrow> a = b"
  by (simp add: id_token_def generateId_def show_nat_inj)

lemma id_run_Nil [simp]: "id_run c c' []"
  by (simp add: id_run_def)

lemma id_run_single: "c \<le> k \<Longrightarrow> k < c' \<Longrightarrow> id_run c c' [id_token k]"
  unfolding id_run_def by (rule exI [of _ "[k]"]) simp

lemma id_run_append:
  assumes "id_run a b xs" "id_run b c ys" "a \<le> b" "b \<le> c"
  shows "id_run a c (xs @ ys)"
proof -
  from assms obtain ks ls where
    k: "xs = map id_token ks" "sorted_wrt (<) ks" "set ks \<subseteq> {a..<b}"
    and l: "ys = map id_token ls" "sorted_wrt (<) ls" "set ls \<subseteq> {b..<c}"
    by (auto simp: id_run_def)
  have "sorted_wrt (<) (ks @ ls)"
    using k l by (fastforce simp: sorted_wrt_append)
  moreover have "set (ks @ ls) \<subseteq> {a..<c}"
    using k l assms(3,4) by auto
  ultimately show ?thesis
    unfolding id_run_def using k(1) l(1) by (intro exI [of _ "ks @ ls"]) simp
qed

lemma id_run_mono: "id_run a b xs \<Longrightarrow> a' \<le> a \<Longrightarrow> b \<le> b' \<Longrightarrow> id_run a' b' xs"
  unfolding id_run_def by (elim exE conjE, rule_tac x = ks in exI) auto

lemma id_run_distinct: "id_run a b xs \<Longrightarrow> distinct xs"
proof -
  assume "id_run a b xs"
  then obtain ks where k: "xs = map id_token ks" "sorted_wrt (<) ks" by (auto simp: id_run_def)
  from k(2) have "distinct ks" by (simp add: strict_sorted_iff)
  moreover have "inj_on id_token (set ks)" by (auto intro: inj_onI id_token_inj)
  ultimately show "distinct xs" using k(1) by (simp add: distinct_map)
qed

lemma node_ids_leaf: "children n = None \<Longrightarrow> node_ids n = key_ids (node_key n) @ [node_id n]"
  by (cases n) simp

lemma key_ids_getKey: "key_ids (getKey k) = [] \<or> key_ids (getKey k) = node_ids k"
  by (simp add: getKey_def)

lemma array_loop_ids:
  assumes p: "\<And>q k c v q' c'. p q k c = Some (Inr (v, q', c')) \<Longrightarrow>
      c \<le> c' \<and> (node_key v = k \<or> node_key v = KUndefined)
      \<and> (\<exists>xs. node_ids v = key_ids (node_key v) @ xs \<and> id_run c c' xs)"
  shows "array_loop p n acc off ctr = Some (Inr (cs, off', ctr')) \<Longrightarrow>
         ctr \<le> ctr' \<and> (\<exists>xs. concat (map node_ids cs) = concat (map node_ids acc) @ xs
                              \<and> id_run ctr ctr' xs)"
proof (induction n arbitrary: acc off ctr)
  case 0
  then show ?case by auto
next
  case (Suc n)
  from Suc.prems obtain v q1 c1 where
    1: "p off KUndefined ctr = Some (Inr (v, q1, c1))"
    and 2: "array_loop p n (acc @ [v]) q1 c1 = Some (Inr (cs, off', ctr'))"
    by (auto split: option.splits sum.splits)
  from p [OF 1] obtain xs where
    v: "ctr \<le> c1" "node_key v = KUndefined" "node_ids v = xs" "id_run ctr c1 xs"
    by auto
  from Suc.IH [OF 2] obtain ys where
    r: "c1 \<le> ctr'" "concat (map node_ids cs) = concat (map node_ids (acc @ [v])) @ ys"
      "id_run c1 ctr' ys"
    by auto
  from v r have "concat (map node_ids cs) = concat (map node_ids acc) @ (xs @ ys)" by simp
  moreover from v r have "id_run ctr ctr' (xs @ ys)" by (intro id_run_append)
  ultimately show ?case using v(1) r(1) by fastforce
qed

lemma map_loop_ids:
  assumes p: "\<And>q k c v q' c'. p q k c = Some (Inr (v, q', c')) \<Longrightarrow>
      c \<le> c' \<and> (node_key v = k \<or> node_key v = KUndefined)
      \<and> (\<exists>xs. node_ids v = key_ids (node_key v) @ xs \<and> id_run c c' xs)"
  shows "map_loop p n acc off ctr = Some (Inr (cs, off', ctr')) \<Longrightarrow>
         ctr \<le> ctr' \<and> (\<exists>xs. concat (map node_ids cs) = concat (map node_ids acc) @ xs
                              \<and> id_run ctr ctr' xs)"
proof (induction n arbitrary: acc off ctr)
  case 0
  then show ?case by auto
next
  case (Suc n)
  from Suc.prems obtain k q1 c1 v q2 c2 where
    1: "p off KUndefined ctr = Some (Inr (k, q1, c1))"
    and 2: "p q1 (getKey k) c1 = Some (Inr (v, q2, c2))"
    and 3: "map_loop p n (acc @ [v]) q2 c2 = Some (Inr (cs, off', ctr'))"
    by (auto split: option.splits sum.splits)
  from p [OF 1] obtain xk where
    k: "ctr \<le> c1" "node_key k = KUndefined" "node_ids k = xk" "id_run ctr c1 xk"
    by auto
  from p [OF 2] obtain xv where
    v: "c1 \<le> c2" "node_key v = getKey k \<or> node_key v = KUndefined"
      "node_ids v = key_ids (node_key v) @ xv" "id_run c1 c2 xv"
    by auto
  have "key_ids (node_key v) = [] \<or> key_ids (node_key v) = xk"
    using v(2) k(3) key_ids_getKey [of k] by auto
  then have "id_run ctr c1 (key_ids (node_key v))"
    using k(4) by auto
  with v k have nv: "id_run ctr c2 (node_ids v)"
    by (simp add: id_run_append)
  from Suc.IH [OF 3] obtain ys where
    r: "c2 \<le> ctr'" "concat (map node_ids cs) = concat (map node_ids (acc @ [v])) @ ys"
      "id_run c2 ctr' ys"
    by auto
  from r have "concat (map node_ids cs) = concat (map node_ids acc) @ (node_ids v @ ys)" by simp
  moreover from nv r k v have "id_run ctr ctr' (node_ids v @ ys)"
    by (intro id_run_append) auto
  ultimately show ?case using k(1) v(1) r(1) by fastforce
qed

lemma parse_ids:
  "parse f buf off key ctr = Some (Inr (n, off', ctr')) \<Longrightarrow>
     ctr \<le> ctr' \<and> (node_key n = key \<or> node_key n = KUndefined)
     \<and> (\<exists>xs. node_ids n = key_ids (node_key n) @ xs \<and> id_run ctr ctr' xs)"
proof (induction f arbitrary: off key ctr n off' ctr')
  case 0
  then show ?case by (simp add: parse.simps)
next
  case (Suc f)
  from Suc.prems have lt: "off < length buf"
    by (auto simp: parse_Suc_view split: if_splits)
  have tok: "fst (generateId ctr) = id_token ctr" by (simp add: id_token_def)
  show ?case
  proof (cases "container_tag (buf ! off)")
    case True
    with Suc.prems lt obtain isMap raw len off2 cs where
      l: "children_loop isMap (parse f buf) len [] off2 (Suc ctr) = Some (Inr (cs, off', ctr'))"
      and n: "n = Node (id_token ctr) key VNull (if isMap then MAP else ARRAY) (Some raw) (Some cs)
                   (Some len) None"
      by (auto simp: parse_Suc_view container_Inr tok split: sum.splits)
    have "Suc ctr \<le> ctr' \<and> (\<exists>xs. concat (map node_ids cs) = concat (map node_ids []) @ xs
                              \<and> id_run (Suc ctr) ctr' xs)"
      using l array_loop_ids [of "parse f buf" len "[]" off2 "Suc ctr" cs off' ctr', OF Suc.IH]
        map_loop_ids [of "parse f buf" len "[]" off2 "Suc ctr" cs off' ctr', OF Suc.IH]
      by (cases isMap) (simp_all add: children_loop_def)
    then obtain xs where
      x: "Suc ctr \<le> ctr'" "concat (map node_ids cs) = xs" "id_run (Suc ctr) ctr' xs"
      by auto
    have "id_run ctr (Suc ctr) [id_token ctr]" by (rule id_run_single) simp_all
    with x have "id_run ctr ctr' ([id_token ctr] @ xs)" by (intro id_run_append) simp_all
    with n x show ?thesis by simp
  next
    case False
    with Suc.prems lt have
      s: "scalar_step buf (off + 1) (buf ! off) (id_token ctr) key (Suc ctr) = Inr (n, off', ctr')"
      by (auto simp: parse_Suc_view tok)
    from scalar_step_Inr [OF s] lt have ch: "children n = None"
      and c: "(ctr' = Suc ctr \<and> node_id n = id_token ctr \<and> node_key n = key) \<or>
              (ctr' = Suc ctr + 1 \<and> node_id n = id_token (Suc ctr) \<and> node_key n = KUndefined)"
      by (auto simp: id_token_def)
    from c have "id_run ctr ctr' [node_id n]"
      by (auto intro!: id_run_single)
    with c node_ids_leaf [OF ch] show ?thesis by auto
  qed
qed

lemma id_token_eq: "id_token k = ''node-'' @ show_nat k"
  by (simp add: id_token_def generateId_def)

text \<open>
  Claim C9, as the code has it. \<open>parseMsgpack\<close> sets the counter to 0 before it
  decodes, so its result does not depend on the value the counter had, and the ids
  are those of this call alone. In the tree of one call the ids, read in the order the
  nodes were created, are \<open>node-k\<close> for strictly increasing \<open>k\<close>; no two nodes of the
  tree share an id.
\<close>

theorem ids_within_one_decode:
  "parseMsgpack rangeMessage c input format = parseMsgpack rangeMessage c' input format
   \<and> (parseMsgpack rangeMessage c input format = Some (Success rootNode detected bytes) \<longrightarrow>
        distinct (node_ids rootNode)
        \<and> (\<exists>ks. node_ids rootNode = map (\<lambda>k. ''node-'' @ show_nat k) ks \<and> sorted_wrt (<) ks))"
proof (intro conjI impI)
  show "parseMsgpack rangeMessage c input format = parseMsgpack rangeMessage c' input format"
    by (simp add: parseMsgpack_def)
next
  assume "parseMsgpack rangeMessage c input format = Some (Success rootNode detected bytes)"
  then obtain off ctr where
    "parse (Suc (length bytes)) bytes 0 KUndefined 0 = Some (Inr (rootNode, off, ctr))"
    by (auto simp: parseMsgpack_def split: sum.splits if_splits option.splits)
  from parse_ids [OF this] have r: "id_run 0 ctr (node_ids rootNode)"
    by auto
  then show "distinct (node_ids rootNode)" by (rule id_run_distinct)
  from r obtain ks where "node_ids rootNode = map id_token ks" "sorted_wrt (<) ks"
    by (auto simp: id_run_def)
  then show "\<exists>ks. node_ids rootNode = map (\<lambda>k. ''node-'' @ show_nat k) ks \<and> sorted_wrt (<) ks"
    by (auto simp: id_token_eq intro!: exI [of _ ks])
qed

lemma parseHex_8192: "parseHex (js ''8192c0c3d0ff'') = Inr [0x81, 0x92, 0xc0, 0xc3, 0xd0, 0xff]"
  by code_simp

lemma parseMsgpack_8192:
  "parseMsgpack ''r'' 7 (js ''8192c0c3d0ff'') HEX =
     Some (Success
       (Node ''node-0'' KUndefined VNull MAP (Some ''map(1)'')
          (Some [Node ''node-4''
                   (KNode (Node ''node-1'' KUndefined VNull ARRAY (Some ''arr(2)'')
                      (Some [Node ''node-2'' KUndefined VNull NULL (Some ''nil'') None None None,
                             Node ''node-3'' KUndefined (VBool True) BOOLEAN (Some ''true'') None
                               None None])
                      (Some 2) None))
                   (VNumber (- 1)) INTEGER (Some ''int(8)'') None None None])
          (Some 1) None)
       HEX [0x81, 0x92, 0xc0, 0xc3, 0xd0, 0xff])"
proof -
  have r: "recover (js ''8192c0c3d0ff'') HEX = Inr ([0x81, 0x92, 0xc0, 0xc3, 0xd0, 0xff], HEX)"
    by (simp add: recover_def parseHex_8192 bindE_def)
  show ?thesis by (simp add: parseMsgpack_def r decoder_eval)
qed

theorem ids_within_one_decode_witness:
  "parseMsgpack ''r'' 7 (js ''8192c0c3d0ff'') HEX =
     Some (Success
       (Node ''node-0'' KUndefined VNull MAP (Some ''map(1)'')
          (Some [Node ''node-4''
                   (KNode (Node ''node-1'' KUndefined VNull ARRAY (Some ''arr(2)'')
                      (Some [Node ''node-2'' KUndefined VNull NULL (Some ''nil'') None None None,
                             Node ''node-3'' KUndefined (VBool True) BOOLEAN (Some ''true'') None
                               None None])
                      (Some 2) None))
                   (VNumber (- 1)) INTEGER (Some ''int(8)'') None None None])
          (Some 1) None)
       HEX [0x81, 0x92, 0xc0, 0xc3, 0xd0, 0xff])
   \<and> distinct (node_ids
       (Node ''node-0'' KUndefined VNull MAP (Some ''map(1)'')
          (Some [Node ''node-4''
                   (KNode (Node ''node-1'' KUndefined VNull ARRAY (Some ''arr(2)'')
                      (Some [Node ''node-2'' KUndefined VNull NULL (Some ''nil'') None None None,
                             Node ''node-3'' KUndefined (VBool True) BOOLEAN (Some ''true'') None
                               None None])
                      (Some 2) None))
                   (VNumber (- 1)) INTEGER (Some ''int(8)'') None None None])
          (Some 1) None))"
  using parseMsgpack_8192
    ids_within_one_decode [where rangeMessage = "''r''" and c = 7 and c' = 0
      and input = "js ''8192c0c3d0ff''" and format = HEX and detected = HEX
      and bytes = "[0x81, 0x92, 0xc0, 0xc3, 0xd0, 0xff]"]
  by blast

text \<open>
  Where the claim fails: two calls in a row, the second finding the counter at 1 where
  the first left it. Each returns a root with the id \<open>node-0\<close>, and the two roots are
  different nodes.
\<close>

theorem ids_across_decodes_counterexample:
  "parseMsgpack ''r'' 0 (js ''c0'') HEX =
     Some (Success (Node ''node-0'' KUndefined VNull NULL (Some ''nil'') None None None) HEX [0xc0])
   \<and> parseMsgpack ''r'' 1 (js ''c3'') HEX =
     Some (Success (Node ''node-0'' KUndefined (VBool True) BOOLEAN (Some ''true'') None None None)
             HEX [0xc3])"
proof -
  have h1: "parseHex (js ''c0'') = Inr [0xc0]" by code_simp
  have h2: "parseHex (js ''c3'') = Inr [0xc3]" by code_simp
  have r1: "recover (js ''c0'') HEX = Inr ([0xc0], HEX)"
    by (simp add: recover_def h1 bindE_def)
  have r2: "recover (js ''c3'') HEX = Inr ([0xc3], HEX)"
    by (simp add: recover_def h2 bindE_def)
  show ?thesis by (simp add: parseMsgpack_def r1 r2 decoder_eval)
qed

end
